theory Spec2Isabelle
  imports Main
begin

section \<open>Data model\<close>

text \<open>
  The dynamic discovery shared informer factory of package \<open>informer\<close>.
  A \<open>schema.GroupVersionResource\<close> is a struct of three strings, compared structurally;
  it is the key of every map of the factory.
\<close>

datatype GroupVersionResource = GVR (Group: string) (Version: string) (Resource: string)

datatype GroupVersion = GV (gv_Group: string) (gv_Version: string)

definition WithResource :: "GroupVersion \<Rightarrow> string \<Rightarrow> GroupVersionResource" where
  "WithResource gv resource = GVR (gv_Group gv) (gv_Version gv) resource"

text \<open>
  The two package variables \<open>crdGVR\<close> and \<open>apibindingsGVR\<close>. Their group and version come
  from the \<open>SchemeGroupVersion\<close> of the imported API packages.
\<close>

definition apiextensionsv1_SchemeGroupVersion :: GroupVersion where
  "apiextensionsv1_SchemeGroupVersion = GV ''apiextensions.k8s.io'' ''v1''"

definition apisv1alpha1_SchemeGroupVersion :: GroupVersion where
  "apisv1alpha1_SchemeGroupVersion = GV ''apis.kcp.dev'' ''v1alpha1''"

definition crdGVR :: GroupVersionResource where
  "crdGVR = WithResource apiextensionsv1_SchemeGroupVersion ''customresourcedefinitions''"

definition apibindingsGVR :: GroupVersionResource where
  "apibindingsGVR = WithResource apisv1alpha1_SchemeGroupVersion ''apibindings''"

text \<open>What a discovery call reports: \<open>metav1.APIResource\<close> and \<open>metav1.APIResourceList\<close>.\<close>

record APIResource =
  Name :: string
  Namespaced :: bool
  Verbs :: "string list"

record APIResourceList =
  GroupVersion :: string
  APIResources :: "APIResource list"

text \<open>
  Errors are values. \<open>Error\<close> is an error returned by a collaborator (the workspace lister,
  the discovery client, \<open>schema.ParseGroupVersion\<close>, the informer's own \<open>AddIndexers\<close>);
  \<open>IndexerAlreadyExists\<close> is the \<open>fmt.Errorf\<close> of the factory's \<open>AddIndexers\<close>;
  \<open>PanicCloseOfClosedChannel\<close> is the runtime panic of \<open>close\<close> on a closed channel.
\<close>

datatype error = Error string | IndexerAlreadyExists string | PanicCloseOfClosedChannel

text \<open>
  An informer is an object: \<open>inf_id\<close> is its identity (its allocation number),
  \<open>inf_gvr\<close> the resource it was created for. A stop channel is identified by its
  allocation number. \<open>Lister\<close> is what \<open>informer.Lister()\<close> returns.
\<close>

datatype Informer = Informer (inf_id: nat) (inf_gvr: GroupVersionResource)

datatype GenericLister = Lister Informer

type_synonym chan = nat

text \<open>
  The factory. The first six fields are the struct's \<open>indexers\<close> (\<open>None\<close> is the nil map),
  \<open>handlers\<close> (the slice held by the atomic value), \<open>informers\<close>, \<open>startedInformers\<close>,
  \<open>informerStops\<close> and \<open>terminating\<close>. The last four are the part of the Go runtime the
  methods act on: the allocation counters of informers and channels, the set of closed
  channels, and the log of \<open>go inf.Informer().Run(stop)\<close> statements executed so far.
  \<open>'h\<close> is the type of \<open>GVREventHandler\<close> values, \<open>'f\<close> of \<open>cache.IndexFunc\<close> values.
\<close>

record ('h, 'f) factory =
  indexers :: "(string \<rightharpoonup> 'f) option"
  handlers :: "'h list"
  informers :: "GroupVersionResource \<rightharpoonup> Informer"
  startedInformers :: "GroupVersionResource \<rightharpoonup> bool"
  informerStops :: "GroupVersionResource \<rightharpoonup> chan"
  terminating :: bool
  nextInformer :: nat
  nextChan :: nat
  closed :: "chan set"
  runs :: "(Informer \<times> chan) list"

text \<open>
  The collaborators the factory is constructed with, as far as the methods call them:
  \<open>workspaceLister.List(labels.Everything())\<close>; the logical cluster name of a workspace
  (\<open>logicalcluster.From(ws).Join(ws.Name).String()\<close>); the discovery call
  \<open>disco.WithCluster(logicalcluster.New(name)).ServerPreferredResources()\<close>;
  \<open>schema.ParseGroupVersion\<close>; and \<open>AddIndexers\<close> of a newly created informer.
  \<open>'w\<close> is the type of workspaces.
\<close>

record ('w, 'f) env =
  workspaceLister_List :: "error + 'w list"
  logicalClusterName :: "'w \<Rightarrow> string"
  ServerPreferredResources :: "string \<Rightarrow> error + APIResourceList list"
  ParseGroupVersion :: "string \<Rightarrow> error + GroupVersion"
  informer_AddIndexers :: "Informer \<Rightarrow> (string \<rightharpoonup> 'f) option \<Rightarrow> error option"

section \<open>Operations\<close>

subsection \<open>Construction\<close>

definition NewDynamicDiscoverySharedInformerFactory :: "('h, 'f) factory" where
  "NewDynamicDiscoverySharedInformerFactory =
     \<lparr> indexers = None, handlers = [], informers = Map.empty,
       startedInformers = Map.empty, informerStops = Map.empty, terminating = False,
       nextInformer = 0, nextChan = 0, closed = {}, runs = [] \<rparr>"

subsection \<open>Event handlers\<close>

text \<open>
  Go's builtin \<open>copy(dst, src)\<close> overwrites the first \<open>min (len dst) (len src)\<close> elements
  of \<open>dst\<close> and never grows it.
\<close>

definition copy_slice :: "'a list \<Rightarrow> 'a list \<Rightarrow> 'a list" where
  "copy_slice dst src = (let n = min (length dst) (length src) in take n src @ drop n dst)"

text \<open>
  \<open>AddEventHandler\<close>: \<open>newHandlers\<close> is declared by \<open>var\<close>, so it is the nil slice when
  \<open>copy\<close> runs.
\<close>

definition AddEventHandler :: "'h \<Rightarrow> ('h, 'f) factory \<Rightarrow> ('h, 'f) factory" where
  "AddEventHandler handler d =
     (let hs = handlers d;
          newHandlers = [];
          newHandlers = copy_slice newHandlers hs;
          newHandlers = newHandlers @ [handler]
      in d\<lparr>handlers := newHandlers\<rparr>)"

text \<open>
  The three closures an informer is given at creation. Each loads the handler slice when
  the event arrives and calls every handler in it; the result is the list of calls made,
  in order.
\<close>

datatype 'o callback =
    OnAdd GroupVersionResource 'o
  | OnUpdate GroupVersionResource 'o 'o
  | OnDelete GroupVersionResource 'o

definition AddFunc :: "GroupVersionResource \<Rightarrow> 'o \<Rightarrow> ('h, 'f) factory \<Rightarrow> ('h \<times> 'o callback) list" where
  "AddFunc gvr obj d = map (\<lambda>h. (h, OnAdd gvr obj)) (handlers d)"

definition UpdateFunc :: "GroupVersionResource \<Rightarrow> 'o \<Rightarrow> 'o \<Rightarrow> ('h, 'f) factory \<Rightarrow> ('h \<times> 'o callback) list" where
  "UpdateFunc gvr oldObj newObj d = map (\<lambda>h. (h, OnUpdate gvr oldObj newObj)) (handlers d)"

definition DeleteFunc :: "GroupVersionResource \<Rightarrow> 'o \<Rightarrow> ('h, 'f) factory \<Rightarrow> ('h \<times> 'o callback) list" where
  "DeleteFunc gvr obj d = map (\<lambda>h. (h, OnDelete gvr obj)) (handlers d)"

subsection \<open>Indexers\<close>

text \<open>
  \<open>AddIndexers\<close>. The argument is a Go map that is only ranged over, so it is given as the
  sequence of its entries in the order the \<open>range\<close> visits them. The loop works on the
  map \<open>d.indexers\<close> and stops at the first name found in it.
\<close>

fun addIndexersLoop :: "(string \<times> 'f) list \<Rightarrow> (string \<rightharpoonup> 'f) \<Rightarrow> error option \<times> (string \<rightharpoonup> 'f)" where
  "addIndexersLoop [] m = (None, m)"
| "addIndexersLoop ((name, indexer) # rest) m =
     (case m name of
        Some found \<Rightarrow> (Some (IndexerAlreadyExists name), m)
      | None \<Rightarrow> addIndexersLoop rest (m(name \<mapsto> indexer)))"

text \<open>\<open>d.indexers\<close> after the nil check at the head of \<open>AddIndexers\<close>.\<close>

definition indexers_map :: "('h, 'f) factory \<Rightarrow> (string \<rightharpoonup> 'f)" where
  "indexers_map d = (case indexers d of None \<Rightarrow> Map.empty | Some m \<Rightarrow> m)"

definition AddIndexers :: "(string \<times> 'f) list \<Rightarrow> ('h, 'f) factory \<Rightarrow> error option \<times> ('h, 'f) factory" where
  "AddIndexers idx d =
     (case addIndexersLoop idx (indexers_map d) of
        (err, m') \<Rightarrow> (err, d\<lparr>indexers := Some m'\<rparr>))"

subsection \<open>Informers\<close>

text \<open>
  \<open>informerForResourceLockHeld\<close>: find, or create. A created informer that refuses the
  factory's indexers is dropped and the error returned.
\<close>

definition informerForResourceLockHeld ::
  "('w, 'f) env \<Rightarrow> GroupVersionResource \<Rightarrow> ('h, 'f) factory \<Rightarrow> (error + Informer) \<times> ('h, 'f) factory" where
  "informerForResourceLockHeld e gvr d =
     (case informers d gvr of
        Some informer \<Rightarrow> (Inr informer, d)
      | None \<Rightarrow>
          (let informer = Informer (nextInformer d) gvr;
               d1 = d\<lparr>nextInformer := Suc (nextInformer d)\<rparr>
           in case informer_AddIndexers e informer (indexers d1) of
                Some err \<Rightarrow> (Inl err, d1)
              | None \<Rightarrow> (Inr informer, d1\<lparr>informers := (informers d1)(gvr \<mapsto> informer)\<rparr>)))"

text \<open>\<open>InformerForResource\<close> with nothing running between its two locked sections.\<close>

definition InformerForResource ::
  "('w, 'f) env \<Rightarrow> GroupVersionResource \<Rightarrow> ('h, 'f) factory \<Rightarrow> (error + Informer) \<times> ('h, 'f) factory" where
  "InformerForResource e gvr d =
     (case informers d gvr of
        Some informer \<Rightarrow> (Inr informer, d)
      | None \<Rightarrow> informerForResourceLockHeld e gvr d)"

text \<open>
  \<open>make(chan struct{})\<close>, \<open>go inf.Informer().Run(stop)\<close> and the two stores that follow,
  as \<open>discoverTypes\<close> and \<open>Start\<close> both do them.
\<close>

definition startInformer :: "GroupVersionResource \<Rightarrow> Informer \<Rightarrow> ('h, 'f) factory \<Rightarrow> ('h, 'f) factory" where
  "startInformer gvr informer d =
     (let stop = nextChan d;
          d1 = d\<lparr>nextChan := Suc (nextChan d)\<rparr>;
          d2 = d1\<lparr>runs := runs d1 @ [(informer, stop)]\<rparr>;
          d3 = d2\<lparr>informerStops := (informerStops d2)(gvr \<mapsto> stop)\<rparr>
      in d3\<lparr>startedInformers := (startedInformers d3)(gvr \<mapsto> True)\<rparr>)"

definition close_chan :: "chan \<Rightarrow> ('h, 'f) factory \<Rightarrow> error + ('h, 'f) factory" where
  "close_chan c d = (if c \<in> closed d then Inl PanicCloseOfClosedChannel
                     else Inr (d\<lparr>closed := insert c (closed d)\<rparr>))"

text \<open>
  \<open>Start\<close> ranges over \<open>d.informers\<close>; the argument is the sequence of entries in the order
  the \<open>range\<close> visits them. A key missing from \<open>startedInformers\<close> reads as false.
\<close>

fun startLoop :: "(GroupVersionResource \<times> Informer) list \<Rightarrow> ('h, 'f) factory \<Rightarrow> ('h, 'f) factory" where
  "startLoop [] d = d"
| "startLoop ((gvr, informer) # rest) d =
     (if startedInformers d gvr \<noteq> Some True then startLoop rest (startInformer gvr informer d)
      else startLoop rest d)"

definition Start :: "(GroupVersionResource \<times> Informer) list \<Rightarrow> ('h, 'f) factory \<Rightarrow> ('h, 'f) factory" where
  "Start rng d = startLoop rng d"

text \<open>
  The function that \<open>StartPolling\<close> defers in its polling goroutine, run when the context
  is done: under the write lock it ranges over \<open>d.informerStops\<close> and closes every stop
  channel. The argument is the sequence of entries in the order the \<open>range\<close> visits
  them. It is the only shutdown path of the factory; it writes no field of the struct.
\<close>

fun teardownLoop :: "(GroupVersionResource \<times> chan) list \<Rightarrow> ('h, 'f) factory \<Rightarrow> error option \<times> ('h, 'f) factory" where
  "teardownLoop [] d = (None, d)"
| "teardownLoop ((gvr, stopCh) # rest) d =
     (case close_chan stopCh d of
        Inl panic \<Rightarrow> (Some panic, d)
      | Inr d1 \<Rightarrow> teardownLoop rest d1)"

definition StartPolling_teardown ::
  "(GroupVersionResource \<times> chan) list \<Rightarrow> ('h, 'f) factory \<Rightarrow> error option \<times> ('h, 'f) factory" where
  "StartPolling_teardown rng d = teardownLoop rng d"

subsection \<open>Listers\<close>

fun listersLoop ::
  "(Informer \<Rightarrow> bool) \<Rightarrow> (GroupVersionResource \<times> Informer) list \<Rightarrow>
   (GroupVersionResource \<rightharpoonup> GenericLister) \<times> GroupVersionResource list \<Rightarrow>
   (GroupVersionResource \<rightharpoonup> GenericLister) \<times> GroupVersionResource list" where
  "listersLoop HasSynced [] acc = acc"
| "listersLoop HasSynced ((gvr, informer) # rest) (listers, notSynced) =
     (if \<not> HasSynced informer then listersLoop HasSynced rest (listers, notSynced @ [gvr])
      else listersLoop HasSynced rest (listers(gvr \<mapsto> Lister informer), notSynced))"

text \<open>
  \<open>Listers\<close>. \<open>HasSynced\<close> is the answer of each informer at the time of the call, \<open>rng\<close>
  the sequence of entries of \<open>d.informers\<close> in the order the \<open>range\<close> visits them.
\<close>

definition Listers ::
  "(Informer \<Rightarrow> bool) \<Rightarrow> (GroupVersionResource \<times> Informer) list \<Rightarrow> ('h, 'f) factory \<Rightarrow>
   (GroupVersionResource \<rightharpoonup> GenericLister) \<times> GroupVersionResource list" where
  "Listers HasSynced rng d =
     (if terminating d then (Map.empty, [])
      else listersLoop HasSynced rng (Map.empty, []))"

text \<open>
  A sequence is a possible \<open>range\<close> order of a map when it visits every entry once.
\<close>

definition range_of :: "('k \<rightharpoonup> 'v) \<Rightarrow> ('k \<times> 'v) list \<Rightarrow> bool" where
  "range_of m kvs = (distinct (map fst kvs) \<and> map_of kvs = m)"

definition keys_of :: "'k set \<Rightarrow> 'k list \<Rightarrow> bool" where
  "keys_of S ks = (distinct ks \<and> set ks = S)"

subsection \<open>Discovery\<close>

text \<open>
  The first half of \<open>discoverTypes\<close>: three nested loops that build the set \<open>latest\<close>.
  The innermost loop skips a resource whose name contains a slash, one that is not
  namespaced, and one whose verbs lack \<open>list\<close> or \<open>watch\<close>.
\<close>

fun resourcesLoop ::
  "GroupVersion \<Rightarrow> APIResource list \<Rightarrow> GroupVersionResource set \<Rightarrow> GroupVersionResource set" where
  "resourcesLoop gv [] latest = latest"
| "resourcesLoop gv (ai # rest) latest =
     (let gvr = WithResource gv (Name ai) in
      if CHR ''/'' \<in> set (Name ai) then resourcesLoop gv rest latest
      else if \<not> Namespaced ai then resourcesLoop gv rest latest
      else if \<not> (''list'' \<in> set (Verbs ai) \<and> ''watch'' \<in> set (Verbs ai))
        then resourcesLoop gv rest latest
      else resourcesLoop gv rest (insert gvr latest))"

fun listsLoop ::
  "('w, 'f) env \<Rightarrow> APIResourceList list \<Rightarrow> GroupVersionResource set \<Rightarrow>
   error + GroupVersionResource set" where
  "listsLoop e [] latest = Inr latest"
| "listsLoop e (r # rest) latest =
     (case ParseGroupVersion e (GroupVersion r) of
        Inl err \<Rightarrow> Inl err
      | Inr gv \<Rightarrow> listsLoop e rest (resourcesLoop gv (APIResources r) latest))"

fun workspacesLoop ::
  "('w, 'f) env \<Rightarrow> 'w list \<Rightarrow> GroupVersionResource set \<Rightarrow> error + GroupVersionResource set" where
  "workspacesLoop e [] latest = Inr latest"
| "workspacesLoop e (ws # rest) latest =
     (case ServerPreferredResources e (logicalClusterName e ws) of
        Inl err \<Rightarrow> Inl err
      | Inr rs \<Rightarrow>
          (case listsLoop e rs latest of
             Inl err \<Rightarrow> Inl err
           | Inr latest' \<Rightarrow> workspacesLoop e rest latest'))"

definition discover :: "('w, 'f) env \<Rightarrow> error + GroupVersionResource set" where
  "discover e =
     (case workspaceLister_List e of
        Inl err \<Rightarrow> Inl err
      | Inr workspaces \<Rightarrow> workspacesLoop e workspaces {})"

subsection \<open>Reconciliation\<close>

text \<open>
  \<open>calculateInformersLockHeld\<close> ranges over \<open>latest\<close> and over \<open>d.informers\<close>; the first two
  arguments are the keys of each in the order its \<open>range\<close> visits them.
\<close>

definition calculateInformersLockHeld ::
  "GroupVersionResource list \<Rightarrow> GroupVersionResource list \<Rightarrow> GroupVersionResource set \<Rightarrow>
   ('h, 'f) factory \<Rightarrow> GroupVersionResource list \<times> GroupVersionResource list" where
  "calculateInformersLockHeld rangeLatest rangeInformers latest d =
     (filter (\<lambda>gvr. informers d gvr = None) rangeLatest,
      filter (\<lambda>gvr. \<not> (gvr = crdGVR \<or> gvr = apibindingsGVR) \<and> gvr \<notin> latest) rangeInformers)"

text \<open>The loop over \<open>informersToAdd\<close>: the first informer that cannot be created ends the pass.\<close>

fun addLoop ::
  "('w, 'f) env \<Rightarrow> GroupVersionResource list \<Rightarrow> ('h, 'f) factory \<Rightarrow> error option \<times> ('h, 'f) factory" where
  "addLoop e [] d = (None, d)"
| "addLoop e (gvr # rest) d =
     (case informerForResourceLockHeld e gvr d of
        (Inl err, d1) \<Rightarrow> (Some err, d1)
      | (Inr informer, d1) \<Rightarrow> addLoop e rest (startInformer gvr informer d1))"

text \<open>The loop over \<open>informersToRemove\<close>.\<close>

definition deleteInformer :: "GroupVersionResource \<Rightarrow> ('h, 'f) factory \<Rightarrow> ('h, 'f) factory" where
  "deleteInformer gvr d =
     d\<lparr>informers := (informers d)(gvr := None),
       informerStops := (informerStops d)(gvr := None),
       startedInformers := (startedInformers d)(gvr := None)\<rparr>"

fun removeLoop :: "GroupVersionResource list \<Rightarrow> ('h, 'f) factory \<Rightarrow> error option \<times> ('h, 'f) factory" where
  "removeLoop [] d = (None, d)"
| "removeLoop (gvr # rest) d =
     (case (case informerStops d gvr of
              Some stop \<Rightarrow> close_chan stop d
            | None \<Rightarrow> Inr d) of
        Inl panic \<Rightarrow> (Some panic, d)
      | Inr d1 \<Rightarrow> removeLoop rest (deleteInformer gvr d1))"

text \<open>
  The orders in which the four \<open>range\<close> statements of one pass visit their maps: those of
  the calculation under the read lock, then those of the calculation under the write lock.
\<close>

record ranges =
  rangeLatest1 :: "GroupVersionResource list"
  rangeInformers1 :: "GroupVersionResource list"
  rangeLatest2 :: "GroupVersionResource list"
  rangeInformers2 :: "GroupVersionResource list"

definition ranges_ok :: "ranges \<Rightarrow> GroupVersionResource set \<Rightarrow> ('h, 'f) factory \<Rightarrow> bool" where
  "ranges_ok rs latest d =
     (keys_of latest (rangeLatest1 rs) \<and> keys_of (dom (informers d)) (rangeInformers1 rs) \<and>
      keys_of latest (rangeLatest2 rs) \<and> keys_of (dom (informers d)) (rangeInformers2 rs))"

text \<open>The section of \<open>discoverTypes\<close> that holds the write lock.\<close>

definition reconcileLockHeld ::
  "('w, 'f) env \<Rightarrow> GroupVersionResource list \<Rightarrow> GroupVersionResource list \<Rightarrow>
   GroupVersionResource set \<Rightarrow> ('h, 'f) factory \<Rightarrow> error option \<times> ('h, 'f) factory" where
  "reconcileLockHeld e rangeLatest rangeInformers latest d =
     (case calculateInformersLockHeld rangeLatest rangeInformers latest d of
        (informersToAdd, informersToRemove) \<Rightarrow>
          if informersToAdd = [] \<and> informersToRemove = [] then (None, d)
          else (case addLoop e informersToAdd d of
                  (Some err, d1) \<Rightarrow> (Some err, d1)
                | (None, d1) \<Rightarrow> removeLoop informersToRemove d1))"

text \<open>
  The second half of \<open>discoverTypes\<close>, from the read-locked calculation on, with nothing
  running between the two locked sections.
\<close>

definition reconcile ::
  "('w, 'f) env \<Rightarrow> ranges \<Rightarrow> GroupVersionResource set \<Rightarrow> ('h, 'f) factory \<Rightarrow>
   error option \<times> ('h, 'f) factory" where
  "reconcile e rs latest d =
     (case calculateInformersLockHeld (rangeLatest1 rs) (rangeInformers1 rs) latest d of
        (informersToAdd, informersToRemove) \<Rightarrow>
          if informersToAdd = [] \<and> informersToRemove = [] then (None, d)
          else reconcileLockHeld e (rangeLatest2 rs) (rangeInformers2 rs) latest d)"

definition discoverTypes ::
  "('w, 'f) env \<Rightarrow> ranges \<Rightarrow> ('h, 'f) factory \<Rightarrow> error option \<times> ('h, 'f) factory" where
  "discoverTypes e rs d =
     (case discover e of
        Inl err \<Rightarrow> (Some err, d)
      | Inr latest \<Rightarrow> reconcile e rs latest d)"

subsection \<open>Interleavings\<close>

text \<open>
  The sections that hold the write lock are atomic; a read-locked section changes
  nothing. What other goroutines do between the two locked sections of
  \<open>InformerForResource\<close> is therefore a sequence of write-locked sections: those of other
  \<open>InformerForResource\<close> calls and those of reconciliation passes, each with its own
  discovered set and \<open>range\<close> orders.
\<close>

datatype action =
    ActInformerForResource GroupVersionResource
  | ActReconcile "GroupVersionResource list" "GroupVersionResource list" "GroupVersionResource set"

fun step :: "('w, 'f) env \<Rightarrow> action \<Rightarrow> ('h, 'f) factory \<Rightarrow> ('h, 'f) factory" where
  "step e (ActInformerForResource gvr) d = snd (informerForResourceLockHeld e gvr d)"
| "step e (ActReconcile rangeLatest rangeInformers latest) d =
     snd (reconcileLockHeld e rangeLatest rangeInformers latest d)"

fun run :: "('w, 'f) env \<Rightarrow> action list \<Rightarrow> ('h, 'f) factory \<Rightarrow> ('h, 'f) factory" where
  "run e [] d = d"
| "run e (a # as) d = run e as (step e a d)"

definition InformerForResource_between ::
  "('w, 'f) env \<Rightarrow> action list \<Rightarrow> GroupVersionResource \<Rightarrow> ('h, 'f) factory \<Rightarrow>
   (error + Informer) \<times> ('h, 'f) factory" where
  "InformerForResource_between e others gvr d =
     (case informers d gvr of
        Some informer \<Rightarrow> (Inr informer, d)
      | None \<Rightarrow> informerForResourceLockHeld e gvr (run e others d))"

subsection \<open>Well-formed factories\<close>

text \<open>
  What every factory reached from the constructor satisfies: the stop channels stored
  are allocated, open and pairwise different; closed channels and stored informers are
  allocated.
\<close>

definition wf :: "('h, 'f) factory \<Rightarrow> bool" where
  "wf d =
     ((\<forall>g c. informerStops d g = Some c \<longrightarrow> c < nextChan d \<and> c \<notin> closed d) \<and>
      (\<forall>g g' c. informerStops d g = Some c \<and> informerStops d g' = Some c \<longrightarrow> g = g') \<and>
      (\<forall>c \<in> closed d. c < nextChan d) \<and>
      (\<forall>g i. informers d g = Some i \<longrightarrow> inf_id i < nextInformer d \<and> inf_gvr i = g))"

section \<open>Example inputs\<close>

text \<open>A factory that already holds the indexer \<open>a\<close>.\<close>

definition ex_idx_factory :: "(nat, nat) factory" where
  "ex_idx_factory = snd (AddIndexers [(''a'', 1)] NewDynamicDiscoverySharedInformerFactory)"

text \<open>
  Three resource types, and an environment with two workspaces. The first workspace
  reports \<open>a\<close>, its subresource \<open>a/status\<close> and the cluster-scoped \<open>nodes\<close>; the second
  reports \<open>b\<close> and \<open>c\<close>, the latter without the \<open>watch\<close> verb. A new informer refuses
  indexers that hold the name \<open>namespace\<close>, the name of the indexer it is created with.
  In \<open>ex_env_down\<close> the discovery call of the second workspace fails.
\<close>

definition ex_a :: GroupVersionResource where "ex_a = GVR [] ''v1'' ''a''"
definition ex_b :: GroupVersionResource where "ex_b = GVR [] ''v1'' ''b''"
definition ex_c :: GroupVersionResource where "ex_c = GVR [] ''v1'' ''c''"

definition ex_list0 :: APIResourceList where
  "ex_list0 = \<lparr>GroupVersion = ''v1'', APIResources =
     [\<lparr>Name = ''a'', Namespaced = True, Verbs = [''get'', ''list'', ''watch'']\<rparr>,
      \<lparr>Name = ''a/status'', Namespaced = True, Verbs = [''get'', ''list'', ''watch'']\<rparr>,
      \<lparr>Name = ''nodes'', Namespaced = False, Verbs = [''list'', ''watch'']\<rparr>]\<rparr>"

definition ex_list1 :: APIResourceList where
  "ex_list1 = \<lparr>GroupVersion = ''v1'', APIResources =
     [\<lparr>Name = ''b'', Namespaced = True, Verbs = [''watch'', ''list'']\<rparr>,
      \<lparr>Name = ''c'', Namespaced = True, Verbs = [''get'', ''list'']\<rparr>]\<rparr>"

definition ex_env :: "(nat, nat) env" where
  "ex_env = \<lparr>
     workspaceLister_List = Inr [0, 1],
     logicalClusterName = (\<lambda>w. if w = 0 then ''root:t0'' else ''root:t1''),
     ServerPreferredResources = (\<lambda>n. if n = ''root:t0'' then Inr [ex_list0] else Inr [ex_list1]),
     ParseGroupVersion = (\<lambda>s. if CHR ''/'' \<in> set s then Inl (Error ''unexpected GroupVersion string'')
                               else Inr (GV [] s)),
     informer_AddIndexers = (\<lambda>i idx. case idx of None \<Rightarrow> None
        | Some m \<Rightarrow> if m ''namespace'' = None then None else Some (Error ''indexer conflict'')) \<rparr>"

definition ex_env_down :: "(nat, nat) env" where
  "ex_env_down = ex_env\<lparr>ServerPreferredResources :=
     (\<lambda>n. if n = ''root:t0'' then Inr [ex_list0] else Inl (Error ''unavailable''))\<rparr>"

definition ex_ranges :: ranges where
  "ex_ranges = \<lparr>rangeLatest1 = [ex_a, ex_b], rangeInformers1 = [],
                rangeLatest2 = [ex_b, ex_a], rangeInformers2 = []\<rparr>"

text \<open>A factory on which \<open>InformerForResource\<close> was called for \<open>a\<close> and for \<open>b\<close>.\<close>

definition ex_informers :: "(nat, nat) factory" where
  "ex_informers =
     snd (InformerForResource ex_env ex_b
       (snd (InformerForResource ex_env ex_a NewDynamicDiscoverySharedInformerFactory)))"

text \<open>
  A factory after one pass that discovered the pinned \<open>customresourcedefinitions\<close> and
  \<open>a\<close>, and the \<open>range\<close> orders of a later pass that discovers nothing.
\<close>

definition ex_pinned :: "(nat, nat) factory" where
  "ex_pinned = snd (reconcile ex_env
      \<lparr>rangeLatest1 = [crdGVR, ex_a], rangeInformers1 = [],
       rangeLatest2 = [crdGVR, ex_a], rangeInformers2 = []\<rparr>
      {crdGVR, ex_a} NewDynamicDiscoverySharedInformerFactory)"

definition ex_ranges_none :: ranges where
  "ex_ranges_none = \<lparr>rangeLatest1 = [], rangeInformers1 = [ex_a, crdGVR],
                     rangeLatest2 = [], rangeInformers2 = [crdGVR, ex_a]\<rparr>"

text \<open>
  A factory on which an indexer named \<open>namespace\<close> was registered, the factory after a
  first pass that discovered \<open>a\<close> and \<open>b\<close>, and the \<open>range\<close> orders of a second pass.
\<close>

definition ex_conflict :: "(nat, nat) factory" where
  "ex_conflict = snd (AddIndexers [(''namespace'', 0)] NewDynamicDiscoverySharedInformerFactory)"

definition ex_ranges_again :: ranges where
  "ex_ranges_again = \<lparr>rangeLatest1 = [ex_b, ex_a], rangeInformers1 = [ex_a, ex_b],
                      rangeLatest2 = [ex_a, ex_b], rangeInformers2 = [ex_b, ex_a]\<rparr>"

definition ex_ab :: "(nat, nat) factory" where
  "ex_ab = snd (reconcile ex_env ex_ranges {ex_a, ex_b} NewDynamicDiscoverySharedInformerFactory)"






text \<open>
  The second pass of the convergence scenario, against \<open>b\<close> and \<open>c\<close>, from the factory
  \<open>ex_ab\<close>; and the same two passes from a factory on which \<open>InformerForResource\<close> was
  called for the pinned \<open>customresourcedefinitions\<close>.
\<close>

definition ex_ranges_bc :: ranges where
  "ex_ranges_bc = \<lparr>rangeLatest1 = [ex_b, ex_c], rangeInformers1 = [ex_a, ex_b],
                   rangeLatest2 = [ex_c, ex_b], rangeInformers2 = [ex_b, ex_a]\<rparr>"

definition ex_bc :: "(nat, nat) factory" where
  "ex_bc = snd (reconcile ex_env ex_ranges_bc {ex_b, ex_c} ex_ab)"

definition ex_crd0 :: "(nat, nat) factory" where
  "ex_crd0 = snd (InformerForResource ex_env crdGVR NewDynamicDiscoverySharedInformerFactory)"

definition ex_ranges_crd1 :: ranges where
  "ex_ranges_crd1 = \<lparr>rangeLatest1 = [ex_a, ex_b], rangeInformers1 = [crdGVR],
                     rangeLatest2 = [ex_a, ex_b], rangeInformers2 = [crdGVR]\<rparr>"

definition ex_crd1 :: "(nat, nat) factory" where
  "ex_crd1 = snd (reconcile ex_env ex_ranges_crd1 {ex_a, ex_b} ex_crd0)"

definition ex_ranges_crd2 :: ranges where
  "ex_ranges_crd2 = \<lparr>rangeLatest1 = [ex_b, ex_c], rangeInformers1 = [crdGVR, ex_a, ex_b],
                     rangeLatest2 = [ex_b, ex_c], rangeInformers2 = [ex_a, crdGVR, ex_b]\<rparr>"

definition ex_crd2 :: "(nat, nat) factory" where
  "ex_crd2 = snd (reconcile ex_env ex_ranges_crd2 {ex_b, ex_c} ex_crd1)"

section \<open>Event fan-out\<close>

text \<open>
  C1. Registration is meant to keep the listeners registered before and add the new one.
  In the code every registration replaces the whole collection by the new listener
  alone, so an event that follows two registrations reaches the second listener only.
\<close>

theorem AddEventHandler_drops_earlier:
  "handlers (AddEventHandler h d) = [h]
   \<and> AddFunc gvr obj (AddEventHandler h2 (AddEventHandler h1 d)) = [(h2, OnAdd gvr obj)]"
  by (simp add: AddEventHandler_def copy_slice_def AddFunc_def)

section \<open>Indexer registration\<close>

lemma addIndexersLoop_None:
  "distinct (map fst idx) \<Longrightarrow> \<forall>n \<in> set (map fst idx). m n = None \<Longrightarrow>
   addIndexersLoop idx m = (None, m ++ map_of idx)"
proof (induction idx arbitrary: m)
  case Nil
  then show ?case by simp
next
  case (Cons p idx)
  obtain name f where p: "p = (name, f)" by (cases p)
  from Cons.prems p have fresh: "m name = None" and notin: "name \<notin> fst ` set idx"
    and dist: "distinct (map fst idx)" by auto
  have rest: "\<forall>n \<in> set (map fst idx). (m(name \<mapsto> f)) n = None"
    using Cons.prems notin by (auto simp: p)
  have "map_of idx name = None" using notin by (simp add: map_of_eq_None_iff)
  then have eq: "m(name \<mapsto> f) ++ map_of idx = m ++ (map_of idx)(name \<mapsto> f)"
    by (auto simp: map_add_def fun_eq_iff split: option.splits)
  have "addIndexersLoop (p # idx) m = addIndexersLoop idx (m(name \<mapsto> f))"
    using fresh by (simp add: p)
  also have "\<dots> = (None, m(name \<mapsto> f) ++ map_of idx)"
    by (rule Cons.IH [OF dist rest])
  also have "m(name \<mapsto> f) ++ map_of idx = m ++ map_of (p # idx)"
    unfolding eq by (simp add: p)
  finally show ?case .
qed

lemma addIndexersLoop_Some:
  "distinct (map fst idx) \<Longrightarrow> addIndexersLoop idx m = (Some err, m') \<Longrightarrow>
   \<exists>pre name f post. idx = pre @ (name, f) # post \<and> err = IndexerAlreadyExists name \<and>
      m name \<noteq> None \<and> (\<forall>n \<in> set (map fst pre). m n = None) \<and> m' = m ++ map_of pre"
proof (induction idx arbitrary: m)
  case Nil
  then show ?case by simp
next
  case (Cons p idx)
  obtain name f where p: "p = (name, f)" by (cases p)
  show ?case
  proof (cases "m name")
    case (Some g)
    with Cons.prems p have "err = IndexerAlreadyExists name" "m' = m" by auto
    with Some p have "(p # idx) = [] @ (name, f) # idx \<and> err = IndexerAlreadyExists name \<and>
      m name \<noteq> None \<and> (\<forall>n \<in> set (map fst []). m n = None) \<and> m' = m ++ map_of []" by simp
    then show ?thesis by blast
  next
    case None
    from Cons.prems p have notin: "name \<notin> fst ` set idx" and dist: "distinct (map fst idx)" by auto
    from Cons.prems None p have run: "addIndexersLoop idx (m(name \<mapsto> f)) = (Some err, m')" by simp
    from Cons.IH [OF dist run] obtain pre name' f' post where
      idx: "idx = pre @ (name', f') # post" and err: "err = IndexerAlreadyExists name'"
      and hit: "(m(name \<mapsto> f)) name' \<noteq> None"
      and pre: "\<forall>n \<in> set (map fst pre). (m(name \<mapsto> f)) n = None"
      and m': "m' = m(name \<mapsto> f) ++ map_of pre" by blast
    from notin idx have ne: "name' \<noteq> name" by auto
    from notin idx have npre: "map_of pre name = None" by (auto simp: map_of_eq_None_iff)
    have 1: "p # idx = ((name, f) # pre) @ (name', f') # post" by (simp add: idx p)
    have 2: "m name' \<noteq> None" using hit ne by simp
    have 3: "\<forall>n \<in> set (map fst ((name, f) # pre)). m n = None"
      using pre None by (auto split: if_splits)
    have 4: "m' = m ++ map_of ((name, f) # pre)"
      using npre by (auto simp: m' map_add_def fun_eq_iff split: option.splits)
    from 1 err 2 3 4 show ?thesis by blast
  qed
qed


lemma addIndexersLoop_None_fresh:
  "addIndexersLoop idx m = (None, m') \<Longrightarrow> n \<in> fst ` set idx \<Longrightarrow> m n = None"
proof (induction idx arbitrary: m)
  case Nil
  then show ?case by simp
next
  case (Cons p idx)
  obtain name f where p: "p = (name, f)" by (cases p)
  from Cons.prems p have none: "m name = None" by (auto split: option.splits)
  with Cons.prems p have run: "addIndexersLoop idx (m(name \<mapsto> f)) = (None, m')" by simp
  show ?case
  proof (cases "n = name")
    case True
    with none show ?thesis by simp
  next
    case False
    with Cons.prems p have "n \<in> fst ` set idx" by auto
    from Cons.IH [OF run this] False show ?thesis by (simp split: if_splits)
  qed
qed

text \<open>
  C10. Given the entries of the argument map in any order of visit (their names are
  pairwise different): \<open>AddIndexers\<close> returns an error exactly when some name of the
  argument is already registered. Without a conflict it returns nil and every entry is
  added. With a conflict the error names the first registered name visited, and the
  entries visited before it stay added: the map is left partially changed.
\<close>

theorem AddIndexers_error_iff_conflict:
  assumes "distinct (map fst idx)"
  shows "((fst (AddIndexers idx d) \<noteq> None) = (\<exists>name \<in> set (map fst idx). indexers_map d name \<noteq> None))
     \<and> (fst (AddIndexers idx d) = None \<longrightarrow>
          snd (AddIndexers idx d) = d\<lparr>indexers := Some (indexers_map d ++ map_of idx)\<rparr>)
     \<and> (\<forall>err. fst (AddIndexers idx d) = Some err \<longrightarrow>
          (\<exists>pre name f post. idx = pre @ (name, f) # post \<and> err = IndexerAlreadyExists name \<and>
             indexers_map d name \<noteq> None \<and> (\<forall>n \<in> set (map fst pre). indexers_map d n = None) \<and>
             snd (AddIndexers idx d) = d\<lparr>indexers := Some (indexers_map d ++ map_of pre)\<rparr>))"
proof -
  let ?m = "indexers_map d"
  obtain r m' where loop: "addIndexersLoop idx ?m = (r, m')" by (cases "addIndexersLoop idx ?m")
  then have res: "AddIndexers idx d = (r, d\<lparr>indexers := Some m'\<rparr>)" by (simp add: AddIndexers_def)
  show ?thesis
  proof (cases "\<exists>name \<in> set (map fst idx). ?m name \<noteq> None")
    case False
    then have "\<forall>n \<in> set (map fst idx). ?m n = None" by blast
    from addIndexersLoop_None [OF assms this] loop have "r = None" "m' = ?m ++ map_of idx" by simp_all
    with res False show ?thesis by simp
  next
    case True
    have "r \<noteq> None"
    proof
      assume "r = None"
      with loop have l: "addIndexersLoop idx ?m = (None, m')" by simp
      from True obtain n where n: "n \<in> fst ` set idx" "?m n \<noteq> None" by auto
      from addIndexersLoop_None_fresh [OF l n(1)] n(2) show False by simp
    qed
    then obtain err where r: "r = Some err" by blast
    from addIndexersLoop_Some [OF assms loop [unfolded r]] obtain pre name f post where
      "idx = pre @ (name, f) # post" "err = IndexerAlreadyExists name" "?m name \<noteq> None"
      "\<forall>n \<in> set (map fst pre). ?m n = None" "m' = ?m ++ map_of pre" by blast
    then have "\<exists>pre name f post. idx = pre @ (name, f) # post \<and> err = IndexerAlreadyExists name \<and>
             ?m name \<noteq> None \<and> (\<forall>n \<in> set (map fst pre). ?m n = None) \<and>
             d\<lparr>indexers := Some m'\<rparr> = d\<lparr>indexers := Some (?m ++ map_of pre)\<rparr>" by blast
    with res r True show ?thesis by simp
  qed
qed

theorem AddIndexers_error_iff_conflict_witness:
  "distinct (map fst [(''b'', 2::nat), (''a'', 3), (''c'', 4)])
   \<and> fst (AddIndexers [(''b'', 2), (''a'', 3), (''c'', 4)] ex_idx_factory) = Some (IndexerAlreadyExists ''a'')
   \<and> indexers_map (snd (AddIndexers [(''b'', 2), (''a'', 3), (''c'', 4)] ex_idx_factory)) ''a'' = Some 1
   \<and> indexers_map (snd (AddIndexers [(''b'', 2), (''a'', 3), (''c'', 4)] ex_idx_factory)) ''b'' = Some 2
   \<and> indexers_map (snd (AddIndexers [(''b'', 2), (''a'', 3), (''c'', 4)] ex_idx_factory)) ''c'' = None
   \<and> fst (AddIndexers [(''b'', 2), (''c'', 4)] ex_idx_factory) = None
   \<and> indexers_map (snd (AddIndexers [(''b'', 2), (''c'', 4)] ex_idx_factory)) ''c'' = Some 4"
proof -
  have h: "distinct (map fst [(''b'', 2::nat), (''a'', 3), (''c'', 4)])" by simp
  have h2: "distinct (map fst [(''b'', 2::nat), (''c'', 4)])" by simp
  from AddIndexers_error_iff_conflict [OF h, of ex_idx_factory]
       AddIndexers_error_iff_conflict [OF h2, of ex_idx_factory]
  show ?thesis
    by (simp add: ex_idx_factory_def AddIndexers_def indexers_map_def
        NewDynamicDiscoverySharedInformerFactory_def)
qed

section \<open>Discovery\<close>

lemma workspacesLoop_error:
  "ws \<in> set wss \<Longrightarrow> ServerPreferredResources e (logicalClusterName e ws) = Inl err \<Longrightarrow>
   \<exists>err'. workspacesLoop e wss latest = Inl err'"
proof (induction wss arbitrary: latest)
  case Nil
  then show ?case by simp
next
  case (Cons w wss)
  show ?case
  proof (cases "ServerPreferredResources e (logicalClusterName e w)")
    case (Inl a)
    then show ?thesis by simp
  next
    case (Inr rs)
    with Cons.prems have "ws \<in> set wss" by auto
    from Cons.IH [OF this Cons.prems(2)] Inr show ?thesis
      by (cases "listsLoop e rs latest") auto
  qed
qed

text \<open>
  C8. When listing the workspaces fails, or the discovery call of any workspace of the
  list fails, \<open>discoverTypes\<close> returns an error and the factory is exactly what it was
  before the pass: the informer map, the started flags, the stop channels and
  everything else.
\<close>

theorem discoverTypes_discovery_error_keeps_state:
  "(\<forall>err. workspaceLister_List e = Inl err \<longrightarrow> discoverTypes e rs d = (Some err, d))
   \<and> (\<forall>wss ws err. workspaceLister_List e = Inr wss \<and> ws \<in> set wss \<and>
         ServerPreferredResources e (logicalClusterName e ws) = Inl err \<longrightarrow>
         (\<exists>err'. discoverTypes e rs d = (Some err', d)))"
proof (intro conjI allI impI)
  fix err assume "workspaceLister_List e = Inl err"
  then show "discoverTypes e rs d = (Some err, d)"
    by (simp add: discoverTypes_def discover_def)
next
  fix wss ws err
  assume a: "workspaceLister_List e = Inr wss \<and> ws \<in> set wss \<and>
         ServerPreferredResources e (logicalClusterName e ws) = Inl err"
  then have "ws \<in> set wss" and "ServerPreferredResources e (logicalClusterName e ws) = Inl err"
    by simp_all
  from workspacesLoop_error [OF this, of "{}"]
  obtain err' where "workspacesLoop e wss {} = Inl err'" ..
  with a have "discoverTypes e rs d = (Some err', d)"
    by (simp add: discoverTypes_def discover_def)
  then show "\<exists>err'. discoverTypes e rs d = (Some err', d)" ..
qed

theorem discoverTypes_discovery_error_keeps_state_witness:
  "workspaceLister_List ex_env_down = Inr [0, 1] \<and> (1::nat) \<in> set [0, 1]
   \<and> ServerPreferredResources ex_env_down (logicalClusterName ex_env_down 1) = Inl (Error ''unavailable'')
   \<and> discoverTypes ex_env_down ex_ranges (NewDynamicDiscoverySharedInformerFactory :: (nat, nat) factory)
       = (Some (Error ''unavailable''), NewDynamicDiscoverySharedInformerFactory)
   \<and> discoverTypes (ex_env\<lparr>workspaceLister_List := Inl (Error ''no lister'')\<rparr>) ex_ranges
         (NewDynamicDiscoverySharedInformerFactory :: (nat, nat) factory)
       = (Some (Error ''no lister''), NewDynamicDiscoverySharedInformerFactory)"
proof -
  have h: "workspaceLister_List ex_env_down = Inr [0, 1] \<and> (1::nat) \<in> set [0, 1]
   \<and> ServerPreferredResources ex_env_down (logicalClusterName ex_env_down 1) = Inl (Error ''unavailable'')"
    by (simp add: ex_env_down_def ex_env_def)
  have h2: "workspaceLister_List (ex_env\<lparr>workspaceLister_List := Inl (Error ''no lister'')\<rparr>) = Inl (Error ''no lister'')"
    by simp
  from discoverTypes_discovery_error_keeps_state
         [of ex_env_down ex_ranges "NewDynamicDiscoverySharedInformerFactory :: (nat, nat) factory"]
       h
  have "\<exists>err'. discoverTypes ex_env_down ex_ranges (NewDynamicDiscoverySharedInformerFactory :: (nat, nat) factory)
       = (Some err', NewDynamicDiscoverySharedInformerFactory)" by blast
  moreover have "fst (discoverTypes ex_env_down ex_ranges (NewDynamicDiscoverySharedInformerFactory :: (nat, nat) factory))
       = Some (Error ''unavailable'')"
    by (simp add: discoverTypes_def discover_def ex_env_down_def ex_env_def ex_list0_def
        WithResource_def)
  ultimately have 1: "discoverTypes ex_env_down ex_ranges (NewDynamicDiscoverySharedInformerFactory :: (nat, nat) factory)
       = (Some (Error ''unavailable''), NewDynamicDiscoverySharedInformerFactory)" by auto
  from discoverTypes_discovery_error_keeps_state
         [of "ex_env\<lparr>workspaceLister_List := Inl (Error ''no lister'')\<rparr>" ex_ranges
             "NewDynamicDiscoverySharedInformerFactory :: (nat, nat) factory"] h2
  have 2: "discoverTypes (ex_env\<lparr>workspaceLister_List := Inl (Error ''no lister'')\<rparr>) ex_ranges
         (NewDynamicDiscoverySharedInformerFactory :: (nat, nat) factory)
       = (Some (Error ''no lister''), NewDynamicDiscoverySharedInformerFactory)" by blast
  from h 1 2 show ?thesis by simp
qed

lemma resourcesLoop_iff:
  "(gvr \<in> resourcesLoop gv ais latest) =
   (gvr \<in> latest \<or> (\<exists>ai \<in> set ais. gvr = WithResource gv (Name ai) \<and> CHR ''/'' \<notin> set (Name ai) \<and>
       Namespaced ai \<and> ''list'' \<in> set (Verbs ai) \<and> ''watch'' \<in> set (Verbs ai)))"
  by (induction ais arbitrary: latest) (auto simp: Let_def)

lemma listsLoop_iff:
  "listsLoop e rs latest = Inr L \<Longrightarrow>
   (gvr \<in> L) =
   (gvr \<in> latest \<or> (\<exists>r \<in> set rs. \<exists>gv. ParseGroupVersion e (GroupVersion r) = Inr gv \<and>
      (\<exists>ai \<in> set (APIResources r). gvr = WithResource gv (Name ai) \<and> CHR ''/'' \<notin> set (Name ai) \<and>
       Namespaced ai \<and> ''list'' \<in> set (Verbs ai) \<and> ''watch'' \<in> set (Verbs ai))))"
proof (induction rs arbitrary: latest)
  case Nil
  then show ?case by simp
next
  case (Cons r rs)
  from Cons.prems obtain gv where gv: "ParseGroupVersion e (GroupVersion r) = Inr gv"
    and run: "listsLoop e rs (resourcesLoop gv (APIResources r) latest) = Inr L"
    by (auto split: sum.splits)
  show ?case
    unfolding Cons.IH [OF run] resourcesLoop_iff using gv by auto
qed

lemma workspacesLoop_iff:
  "workspacesLoop e wss latest = Inr L \<Longrightarrow>
   (gvr \<in> L) =
   (gvr \<in> latest \<or> (\<exists>ws \<in> set wss. \<exists>rs. ServerPreferredResources e (logicalClusterName e ws) = Inr rs \<and>
     (\<exists>r \<in> set rs. \<exists>gv. ParseGroupVersion e (GroupVersion r) = Inr gv \<and>
      (\<exists>ai \<in> set (APIResources r). gvr = WithResource gv (Name ai) \<and> CHR ''/'' \<notin> set (Name ai) \<and>
       Namespaced ai \<and> ''list'' \<in> set (Verbs ai) \<and> ''watch'' \<in> set (Verbs ai)))))"
proof (induction wss arbitrary: latest)
  case Nil
  then show ?case by simp
next
  case (Cons w wss)
  from Cons.prems obtain rs latest' where rs: "ServerPreferredResources e (logicalClusterName e w) = Inr rs"
    and l: "listsLoop e rs latest = Inr latest'"
    and run: "workspacesLoop e wss latest' = Inr L"
    by (auto split: sum.splits)
  show ?case
    unfolding Cons.IH [OF run] listsLoop_iff [OF l] using rs by auto
qed

lemma listsLoop_error:
  "listsLoop e rs latest = Inl err \<Longrightarrow>
   \<exists>r \<in> set rs. ParseGroupVersion e (GroupVersion r) = Inl err"
  by (induction rs arbitrary: latest) (auto split: sum.splits)

lemma workspacesLoop_error_source:
  "workspacesLoop e wss latest = Inl err \<Longrightarrow>
   \<exists>ws \<in> set wss. ServerPreferredResources e (logicalClusterName e ws) = Inl err \<or>
     (\<exists>rs. ServerPreferredResources e (logicalClusterName e ws) = Inr rs \<and>
        (\<exists>r \<in> set rs. ParseGroupVersion e (GroupVersion r) = Inl err))"
proof (induction wss arbitrary: latest)
  case Nil
  then show ?case by simp
next
  case (Cons w wss)
  show ?case
  proof (cases "ServerPreferredResources e (logicalClusterName e w)")
    case (Inl a)
    with Cons.prems show ?thesis by auto
  next
    case (Inr rs)
    show ?thesis
    proof (cases "listsLoop e rs latest")
      case (Inl a)
      with Cons.prems Inr have "a = err" by simp
      with Inl listsLoop_error [of e rs latest err] Inr show ?thesis by auto
    next
      case (Inr latest')
      with Cons.prems \<open>ServerPreferredResources e (logicalClusterName e w) = Inr rs\<close>
      have "workspacesLoop e wss latest' = Inl err" by simp
      from Cons.IH [OF this] show ?thesis by auto
    qed
  qed
qed

text \<open>
  C3, as amended. In a pass whose discovery succeeds, a resource type is in the
  discovered set exactly when some workspace reports it with a name that contains no
  slash, as namespaced, and with both the verbs \<open>list\<close> and \<open>watch\<close>. Excluded
  resources produce no error: a failed discovery returns the error of a discovery call
  or of \<open>ParseGroupVersion\<close>.
\<close>

theorem discover_keeps_iff_observable:
  assumes "workspaceLister_List e = Inr wss"
  shows "(\<forall>latest gvr. discover e = Inr latest \<longrightarrow>
      (gvr \<in> latest) =
      (\<exists>ws \<in> set wss. \<exists>rs. ServerPreferredResources e (logicalClusterName e ws) = Inr rs \<and>
        (\<exists>r \<in> set rs. \<exists>gv. ParseGroupVersion e (GroupVersion r) = Inr gv \<and>
          (\<exists>ai \<in> set (APIResources r). gvr = WithResource gv (Name ai) \<and>
             CHR ''/'' \<notin> set (Name ai) \<and> Namespaced ai \<and>
             ''list'' \<in> set (Verbs ai) \<and> ''watch'' \<in> set (Verbs ai)))))
   \<and> (\<forall>err. discover e = Inl err \<longrightarrow>
        (\<exists>ws \<in> set wss. ServerPreferredResources e (logicalClusterName e ws) = Inl err \<or>
          (\<exists>rs. ServerPreferredResources e (logicalClusterName e ws) = Inr rs \<and>
             (\<exists>r \<in> set rs. ParseGroupVersion e (GroupVersion r) = Inl err))))"
proof (intro conjI allI impI)
  fix latest gvr assume "discover e = Inr latest"
  with assms have "workspacesLoop e wss {} = Inr latest" by (simp add: discover_def)
  from workspacesLoop_iff [OF this, of gvr]
  show "(gvr \<in> latest) =
      (\<exists>ws \<in> set wss. \<exists>rs. ServerPreferredResources e (logicalClusterName e ws) = Inr rs \<and>
        (\<exists>r \<in> set rs. \<exists>gv. ParseGroupVersion e (GroupVersion r) = Inr gv \<and>
          (\<exists>ai \<in> set (APIResources r). gvr = WithResource gv (Name ai) \<and>
             CHR ''/'' \<notin> set (Name ai) \<and> Namespaced ai \<and>
             ''list'' \<in> set (Verbs ai) \<and> ''watch'' \<in> set (Verbs ai))))" by simp
next
  fix err assume "discover e = Inl err"
  with assms have "workspacesLoop e wss {} = Inl err" by (simp add: discover_def)
  from workspacesLoop_error_source [OF this]
  show "\<exists>ws \<in> set wss. ServerPreferredResources e (logicalClusterName e ws) = Inl err \<or>
          (\<exists>rs. ServerPreferredResources e (logicalClusterName e ws) = Inr rs \<and>
             (\<exists>r \<in> set rs. ParseGroupVersion e (GroupVersion r) = Inl err))" .
qed

lemma discover_ex_env: "discover ex_env = Inr {ex_a, ex_b}"
  by (simp add: discover_def ex_env_def ex_list0_def ex_list1_def WithResource_def ex_a_def ex_b_def
      insert_commute)

theorem discover_keeps_iff_observable_witness:
  "workspaceLister_List ex_env = Inr [0, 1] \<and> discover ex_env = Inr {ex_a, ex_b}
   \<and> (\<exists>ws \<in> set [0, 1]. \<exists>rs. ServerPreferredResources ex_env (logicalClusterName ex_env ws) = Inr rs \<and>
        (\<exists>r \<in> set rs. \<exists>gv. ParseGroupVersion ex_env (GroupVersion r) = Inr gv \<and>
          (\<exists>ai \<in> set (APIResources r). ex_a = WithResource gv (Name ai) \<and>
             CHR ''/'' \<notin> set (Name ai) \<and> Namespaced ai \<and>
             ''list'' \<in> set (Verbs ai) \<and> ''watch'' \<in> set (Verbs ai))))"
proof -
  have h: "workspaceLister_List ex_env = Inr [0, 1]" by (simp add: ex_env_def)
  from discover_keeps_iff_observable [OF h] discover_ex_env
  have "(ex_a \<in> {ex_a, ex_b}) =
      (\<exists>ws \<in> set [0, 1]. \<exists>rs. ServerPreferredResources ex_env (logicalClusterName ex_env ws) = Inr rs \<and>
        (\<exists>r \<in> set rs. \<exists>gv. ParseGroupVersion ex_env (GroupVersion r) = Inr gv \<and>
          (\<exists>ai \<in> set (APIResources r). ex_a = WithResource gv (Name ai) \<and>
             CHR ''/'' \<notin> set (Name ai) \<and> Namespaced ai \<and>
             ''list'' \<in> set (Verbs ai) \<and> ''watch'' \<in> set (Verbs ai))))" by blast
  with h discover_ex_env show ?thesis by simp
qed

text \<open>
  The claim as stated fails on a subresource: \<open>a/status\<close> is reported as namespaced with
  \<open>list\<close> and \<open>watch\<close>, and is not in the discovered set.
\<close>

theorem subresource_excluded_counterexample:
  "ex_list0 \<in> set [ex_list0]
   \<and> ServerPreferredResources ex_env (logicalClusterName ex_env 0) = Inr [ex_list0]
   \<and> ParseGroupVersion ex_env (GroupVersion ex_list0) = Inr (GV [] ''v1'')
   \<and> APIResources ex_list0 ! 1 = \<lparr>Name = ''a/status'', Namespaced = True, Verbs = [''get'', ''list'', ''watch'']\<rparr>
   \<and> discover ex_env = Inr {ex_a, ex_b}
   \<and> WithResource (GV [] ''v1'') ''a/status'' \<notin> {ex_a, ex_b}"
  by (simp add: discover_ex_env) (simp add: ex_env_def ex_list0_def WithResource_def ex_a_def ex_b_def)

section \<open>Listers\<close>

lemma listersLoop_fst:
  "distinct (map fst kvs) \<Longrightarrow>
   fst (listersLoop hs kvs (L, N)) g =
     (case map_of kvs g of
        Some i \<Rightarrow> if hs i then Some (Lister i) else L g
      | None \<Rightarrow> L g)"
proof (induction kvs arbitrary: L N)
  case Nil
  then show ?case by simp
next
  case (Cons p kvs)
  obtain k i where p: "p = (k, i)" by (cases p)
  from Cons.prems p have dist: "distinct (map fst kvs)" and notin: "map_of kvs k = None"
    by (auto simp: map_of_eq_None_iff)
  show ?case
  proof (cases "hs i")
    case True
    have "fst (listersLoop hs (p # kvs) (L, N)) g = fst (listersLoop hs kvs (L(k \<mapsto> Lister i), N)) g"
      using True by (simp add: p)
    also have "\<dots> = (case map_of kvs g of
        Some j \<Rightarrow> if hs j then Some (Lister j) else (L(k \<mapsto> Lister i)) g
      | None \<Rightarrow> (L(k \<mapsto> Lister i)) g)"
      by (rule Cons.IH [OF dist])
    also have "\<dots> = (case map_of (p # kvs) g of
        Some j \<Rightarrow> if hs j then Some (Lister j) else L g
      | None \<Rightarrow> L g)"
      using notin True by (auto simp: p split: option.splits)
    finally show ?thesis .
  next
    case False
    have "fst (listersLoop hs (p # kvs) (L, N)) g = fst (listersLoop hs kvs (L, N @ [k])) g"
      using False by (simp add: p)
    also have "\<dots> = (case map_of kvs g of
        Some j \<Rightarrow> if hs j then Some (Lister j) else L g
      | None \<Rightarrow> L g)"
      by (rule Cons.IH [OF dist])
    also have "\<dots> = (case map_of (p # kvs) g of
        Some j \<Rightarrow> if hs j then Some (Lister j) else L g
      | None \<Rightarrow> L g)"
      using notin False by (auto simp: p split: option.splits)
    finally show ?thesis .
  qed
qed

lemma listersLoop_snd:
  "snd (listersLoop hs kvs (L, N)) = N @ map fst (filter (\<lambda>(g, i). \<not> hs i) kvs)"
  by (induction kvs arbitrary: L N) auto

text \<open>
  What \<open>Listers\<close> returns, given the entries of \<open>d.informers\<close> in any order of visit: if
  the field \<open>terminating\<close> is set, both results are empty. Otherwise the map returned
  holds, for exactly the registered informers that have synced, their lister; the slice
  returned holds exactly the keys of the registered informers that have not synced; and
  no key is in both.
\<close>

theorem Listers_ready_iff_synced:
  assumes "range_of (informers d) rng"
  shows "(terminating d \<longrightarrow> Listers HasSynced rng d = (Map.empty, []))
     \<and> (\<not> terminating d \<longrightarrow>
          (\<forall>gvr l. (fst (Listers HasSynced rng d) gvr = Some l) =
                    (\<exists>i. informers d gvr = Some i \<and> HasSynced i \<and> l = Lister i))
        \<and> (\<forall>gvr. (gvr \<in> set (snd (Listers HasSynced rng d))) =
                    (\<exists>i. informers d gvr = Some i \<and> \<not> HasSynced i))
        \<and> dom (fst (Listers HasSynced rng d)) \<inter> set (snd (Listers HasSynced rng d)) = {})"
proof -
  from assms have dist: "distinct (map fst rng)" and m: "map_of rng = informers d"
    by (simp_all add: range_of_def)
  have ready: "fst (listersLoop HasSynced rng (Map.empty, [])) gvr =
      (case informers d gvr of Some i \<Rightarrow> if HasSynced i then Some (Lister i) else None | None \<Rightarrow> None)"
    for gvr
    using listersLoop_fst [OF dist, of HasSynced Map.empty "[]" gvr] by (simp add: m)
  have notSynced: "(gvr \<in> set (snd (listersLoop HasSynced rng (Map.empty, [])))) =
      (\<exists>i. informers d gvr = Some i \<and> \<not> HasSynced i)" for gvr
  proof -
    have "(gvr \<in> set (snd (listersLoop HasSynced rng (Map.empty, [])))) =
          (\<exists>i. (gvr, i) \<in> set rng \<and> \<not> HasSynced i)"
      by (force simp: listersLoop_snd)
    also have "\<dots> = (\<exists>i. map_of rng gvr = Some i \<and> \<not> HasSynced i)"
      using dist by (auto dest: map_of_SomeD)
    finally show ?thesis by (simp add: m)
  qed
  have r1: "(fst (listersLoop HasSynced rng (Map.empty, [])) gvr = Some l) =
            (\<exists>i. informers d gvr = Some i \<and> HasSynced i \<and> l = Lister i)" for gvr l
    by (auto simp: ready split: option.splits)
  have r3: "dom (fst (listersLoop HasSynced rng (Map.empty, []))) \<inter>
            set (snd (listersLoop HasSynced rng (Map.empty, []))) = {}"
    using notSynced by (auto simp: ready split: option.splits if_splits)
  show ?thesis
    using r1 notSynced r3 by (simp add: Listers_def)
qed

theorem Listers_ready_iff_synced_witness:
  "range_of (informers ex_informers) [(ex_b, Informer 1 ex_b), (ex_a, Informer 0 ex_a)]
   \<and> fst (Listers (\<lambda>i. inf_id i = 0) [(ex_b, Informer 1 ex_b), (ex_a, Informer 0 ex_a)] ex_informers) ex_a
       = Some (Lister (Informer 0 ex_a))
   \<and> fst (Listers (\<lambda>i. inf_id i = 0) [(ex_b, Informer 1 ex_b), (ex_a, Informer 0 ex_a)] ex_informers) ex_b
       = None
   \<and> snd (Listers (\<lambda>i. inf_id i = 0) [(ex_b, Informer 1 ex_b), (ex_a, Informer 0 ex_a)] ex_informers)
       = [ex_b]
   \<and> Listers (\<lambda>i. inf_id i = 0) [(ex_b, Informer 1 ex_b), (ex_a, Informer 0 ex_a)]
        (ex_informers\<lparr>terminating := True\<rparr>) = (Map.empty, [])"
proof -
  have inf: "informers ex_informers = [ex_a \<mapsto> Informer 0 ex_a, ex_b \<mapsto> Informer 1 ex_b]"
    by (simp add: ex_informers_def InformerForResource_def informerForResourceLockHeld_def
        NewDynamicDiscoverySharedInformerFactory_def ex_env_def ex_a_def ex_b_def Let_def)
  have t: "\<not> terminating ex_informers"
    by (simp add: ex_informers_def InformerForResource_def informerForResourceLockHeld_def
        NewDynamicDiscoverySharedInformerFactory_def ex_env_def ex_a_def ex_b_def Let_def)
  have ne: "ex_a \<noteq> ex_b" by (simp add: ex_a_def ex_b_def)
  have h: "range_of (informers ex_informers) [(ex_b, Informer 1 ex_b), (ex_a, Informer 0 ex_a)]"
    using ne by (auto simp: range_of_def inf fun_eq_iff)
  have h': "range_of (informers (ex_informers\<lparr>terminating := True\<rparr>))
     [(ex_b, Informer 1 ex_b), (ex_a, Informer 0 ex_a)]"
    using h by simp
  from Listers_ready_iff_synced [OF h, of "\<lambda>i. inf_id i = 0"]
       Listers_ready_iff_synced [OF h', of "\<lambda>i. inf_id i = 0"] h t
  show ?thesis
    by (simp add: Listers_def ex_a_def ex_b_def)
qed

section \<open>Reconciliation\<close>

subsection \<open>The loops\<close>

lemma startInformer_fields [simp]:
  "informers (startInformer g i d) = informers d"
  "informerStops (startInformer g i d) = (informerStops d)(g \<mapsto> nextChan d)"
  "startedInformers (startInformer g i d) = (startedInformers d)(g \<mapsto> True)"
  "nextChan (startInformer g i d) = Suc (nextChan d)"
  "nextInformer (startInformer g i d) = nextInformer d"
  "closed (startInformer g i d) = closed d"
  "runs (startInformer g i d) = runs d @ [(i, nextChan d)]"
  "handlers (startInformer g i d) = handlers d"
  "indexers (startInformer g i d) = indexers d"
  "terminating (startInformer g i d) = terminating d"
  by (simp_all add: startInformer_def Let_def)

lemma deleteInformer_fields [simp]:
  "informers (deleteInformer g d) = (informers d)(g := None)"
  "informerStops (deleteInformer g d) = (informerStops d)(g := None)"
  "startedInformers (deleteInformer g d) = (startedInformers d)(g := None)"
  "nextChan (deleteInformer g d) = nextChan d"
  "nextInformer (deleteInformer g d) = nextInformer d"
  "closed (deleteInformer g d) = closed d"
  "runs (deleteInformer g d) = runs d"
  "handlers (deleteInformer g d) = handlers d"
  "indexers (deleteInformer g d) = indexers d"
  "terminating (deleteInformer g d) = terminating d"
  by (simp_all add: deleteInformer_def)

lemma informerForResourceLockHeld_found:
  "informers d g = Some i \<Longrightarrow> informerForResourceLockHeld e g d = (Inr i, d)"
  by (simp add: informerForResourceLockHeld_def)

lemma informerForResourceLockHeld_created:
  "informers d g = None \<Longrightarrow>
   informer_AddIndexers e (Informer (nextInformer d) g) (indexers d) = None \<Longrightarrow>
   informerForResourceLockHeld e g d =
     (Inr (Informer (nextInformer d) g),
      d\<lparr>nextInformer := Suc (nextInformer d),
        informers := (informers d)(g \<mapsto> Informer (nextInformer d) g)\<rparr>)"
  by (simp add: informerForResourceLockHeld_def Let_def)

lemma informerForResourceLockHeld_refused:
  "informers d g = None \<Longrightarrow>
   informer_AddIndexers e (Informer (nextInformer d) g) (indexers d) = Some err \<Longrightarrow>
   informerForResourceLockHeld e g d = (Inl err, d\<lparr>nextInformer := Suc (nextInformer d)\<rparr>)"
  by (simp add: informerForResourceLockHeld_def Let_def)

lemma informerForResourceLockHeld_cases:
  assumes "informerForResourceLockHeld e g d = (r, d')"
  obtains (found) i where "informers d g = Some i" "r = Inr i" "d' = d"
  | (created) "informers d g = None"
      "informer_AddIndexers e (Informer (nextInformer d) g) (indexers d) = None"
      "r = Inr (Informer (nextInformer d) g)"
      "d' = d\<lparr>nextInformer := Suc (nextInformer d),
              informers := (informers d)(g \<mapsto> Informer (nextInformer d) g)\<rparr>"
  | (refused) err where "informers d g = None"
      "informer_AddIndexers e (Informer (nextInformer d) g) (indexers d) = Some err"
      "r = Inl err" "d' = d\<lparr>nextInformer := Suc (nextInformer d)\<rparr>"
proof (cases "informers d g")
  case (Some i)
  have a: "r = Inr i" and b: "d' = d"
    using assms informerForResourceLockHeld_found [OF Some, of e] by simp_all
  show ?thesis by (rule found [OF Some a b])
next
  case None
  show ?thesis
  proof (cases "informer_AddIndexers e (Informer (nextInformer d) g) (indexers d)")
    case n: None
    have a: "r = Inr (Informer (nextInformer d) g)"
      and b: "d' = d\<lparr>nextInformer := Suc (nextInformer d),
              informers := (informers d)(g \<mapsto> Informer (nextInformer d) g)\<rparr>"
      using assms informerForResourceLockHeld_created [OF None n] by simp_all
    show ?thesis by (rule created [OF None n a b])
  next
    case (Some err)
    have a: "r = Inl err" and b: "d' = d\<lparr>nextInformer := Suc (nextInformer d)\<rparr>"
      using assms informerForResourceLockHeld_refused [OF None Some] by simp_all
    show ?thesis by (rule refused [OF None Some a b])
  qed
qed

lemma addLoop_frame:
  "addLoop e ks d = (r, d') \<Longrightarrow>
   closed d' = closed d \<and> handlers d' = handlers d \<and> indexers d' = indexers d \<and>
   terminating d' = terminating d \<and> nextChan d \<le> nextChan d' \<and> nextInformer d \<le> nextInformer d'"
proof (induction ks arbitrary: d)
  case Nil
  then show ?case by simp
next
  case (Cons k ks)
  obtain r1 d1 where s: "informerForResourceLockHeld e k d = (r1, d1)"
    by (cases "informerForResourceLockHeld e k d")
  from s show ?case
  proof (cases rule: informerForResourceLockHeld_cases)
    case (found i)
    with Cons.prems s have "addLoop e ks (startInformer k i d) = (r, d')" by simp
    from Cons.IH [OF this] show ?thesis by simp
  next
    case created
    with Cons.prems s have "addLoop e ks (startInformer k (Informer (nextInformer d) k) d1) = (r, d')"
      by simp
    from Cons.IH [OF this] created show ?thesis by simp
  next
    case (refused err)
    with Cons.prems s show ?thesis by auto
  qed
qed

lemma addLoop_other:
  "addLoop e ks d = (r, d') \<Longrightarrow> g \<notin> set ks \<Longrightarrow>
   informers d' g = informers d g \<and> informerStops d' g = informerStops d g \<and>
   startedInformers d' g = startedInformers d g"
proof (induction ks arbitrary: d)
  case Nil
  then show ?case by simp
next
  case (Cons k ks)
  from Cons.prems have ne: "g \<noteq> k" and notin: "g \<notin> set ks" by auto
  obtain r1 d1 where s: "informerForResourceLockHeld e k d = (r1, d1)"
    by (cases "informerForResourceLockHeld e k d")
  from s show ?case
  proof (cases rule: informerForResourceLockHeld_cases)
    case (found i)
    with Cons.prems s have "addLoop e ks (startInformer k i d) = (r, d')" by simp
    from Cons.IH [OF this notin] ne show ?thesis by simp
  next
    case created
    with Cons.prems s have "addLoop e ks (startInformer k (Informer (nextInformer d) k) d1) = (r, d')"
      by simp
    from Cons.IH [OF this notin] created ne show ?thesis by simp
  next
    case (refused err)
    with Cons.prems s show ?thesis by auto
  qed
qed

lemma addLoop_keeps:
  "addLoop e ks d = (r, d') \<Longrightarrow> informers d g = Some i \<Longrightarrow> informers d' g = Some i"
proof (induction ks arbitrary: d)
  case Nil
  then show ?case by simp
next
  case (Cons k ks)
  obtain r1 d1 where s: "informerForResourceLockHeld e k d = (r1, d1)"
    by (cases "informerForResourceLockHeld e k d")
  from s show ?case
  proof (cases rule: informerForResourceLockHeld_cases)
    case (found j)
    with Cons.prems s have "addLoop e ks (startInformer k j d) = (r, d')" by simp
    from Cons.IH [OF this] Cons.prems(2) show ?thesis by simp
  next
    case created
    with Cons.prems s have run: "addLoop e ks (startInformer k (Informer (nextInformer d) k) d1) = (r, d')"
      by simp
    from created Cons.prems(2) have "g \<noteq> k" by auto
    with created Cons.prems(2)
    have "informers (startInformer k (Informer (nextInformer d) k) d1) g = Some i" by simp
    from Cons.IH [OF run this] show ?thesis .
  next
    case (refused err)
    with Cons.prems s show ?thesis by auto
  qed
qed

lemma addLoop_runs:
  "addLoop e ks d = (r, d') \<Longrightarrow> \<exists>new. runs d' = runs d @ new"
proof (induction ks arbitrary: d)
  case Nil
  then show ?case by simp
next
  case (Cons k ks)
  obtain r1 d1 where s: "informerForResourceLockHeld e k d = (r1, d1)"
    by (cases "informerForResourceLockHeld e k d")
  from s show ?case
  proof (cases rule: informerForResourceLockHeld_cases)
    case (found j)
    with Cons.prems s have "addLoop e ks (startInformer k j d) = (r, d')" by simp
    from Cons.IH [OF this] show ?thesis by auto
  next
    case created
    with Cons.prems s have run: "addLoop e ks (startInformer k (Informer (nextInformer d) k) d1) = (r, d')"
      by simp
    from Cons.IH [OF run] created show ?thesis by auto
  next
    case (refused err)
    with Cons.prems s show ?thesis by auto
  qed
qed


lemma addLoop_added:
  "addLoop e ks d = (None, d') \<Longrightarrow> distinct ks \<Longrightarrow> g \<in> set ks \<Longrightarrow>
   \<exists>i c. informers d' g = Some i \<and> informerStops d' g = Some c \<and> nextChan d \<le> c \<and>
      c < nextChan d' \<and> startedInformers d' g = Some True \<and> (i, c) \<in> set (runs d') \<and>
      (informers d g = None \<longrightarrow> nextInformer d \<le> inf_id i \<and> inf_id i < nextInformer d' \<and> inf_gvr i = g)"
proof (induction ks arbitrary: d)
  case Nil
  then show ?case by simp
next
  case (Cons k ks)
  from Cons.prems have dist: "distinct ks" and knotin: "k \<notin> set ks" by auto
  obtain r1 d1 where s: "informerForResourceLockHeld e k d = (r1, d1)"
    by (cases "informerForResourceLockHeld e k d")
  have step: "\<exists>i. r1 = Inr i \<and> informers d1 k = Some i \<and> nextInformer d \<le> nextInformer d1 \<and>
      nextChan d1 = nextChan d \<and> runs d1 = runs d \<and>
      (\<forall>h. h \<noteq> k \<longrightarrow> informers d1 h = informers d h) \<and>
      (informers d k = None \<longrightarrow> nextInformer d \<le> inf_id i \<and> inf_id i < nextInformer d1 \<and> inf_gvr i = k)"
    using s
  proof (cases rule: informerForResourceLockHeld_cases)
    case (found i)
    then show ?thesis by simp
  next
    case created
    then show ?thesis by simp
  next
    case (refused err)
    with Cons.prems s show ?thesis by simp
  qed
  then obtain i where r1: "r1 = Inr i" and ik: "informers d1 k = Some i"
    and ni: "nextInformer d \<le> nextInformer d1" and nc: "nextChan d1 = nextChan d"
    and rn: "runs d1 = runs d"
    and oth: "\<forall>h. h \<noteq> k \<longrightarrow> informers d1 h = informers d h"
    and fresh: "informers d k = None \<longrightarrow> nextInformer d \<le> inf_id i \<and> inf_id i < nextInformer d1 \<and> inf_gvr i = k"
    by auto
  let ?d2 = "startInformer k i d1"
  from Cons.prems s r1 have run: "addLoop e ks ?d2 = (None, d')" by simp
  show ?case
  proof (cases "g = k")
    case True
    from addLoop_other [OF run knotin]
    have 1: "informers d' k = Some i" "informerStops d' k = Some (nextChan d)"
      "startedInformers d' k = Some True"
      using ik nc by simp_all
    from addLoop_frame [OF run] have 2: "nextChan d < nextChan d'" "nextInformer d1 \<le> nextInformer d'"
      using nc by simp_all
    from addLoop_runs [OF run] have 3: "(i, nextChan d) \<in> set (runs d')" using nc by auto
    from 1 2 3 fresh True show ?thesis by auto
  next
    case False
    with Cons.prems have gin: "g \<in> set ks" by simp
    from Cons.IH [OF run dist gin] obtain j c where
      j: "informers d' g = Some j" "informerStops d' g = Some c" "nextChan ?d2 \<le> c"
        "c < nextChan d'" "startedInformers d' g = Some True" "(j, c) \<in> set (runs d')"
        "informers ?d2 g = None \<longrightarrow> nextInformer ?d2 \<le> inf_id j \<and> inf_id j < nextInformer d' \<and> inf_gvr j = g"
      by (elim exE conjE) (rule that)
    from oth False have "informers ?d2 g = informers d g" by simp
    with j ni nc show ?thesis by auto
  qed
qed


subsection \<open>The loop over informersToRemove\<close>

lemma close_chan_cases:
  "close_chan c d = (if c \<in> closed d then Inl PanicCloseOfClosedChannel
                     else Inr (d\<lparr>closed := insert c (closed d)\<rparr>))"
  by (simp add: close_chan_def)

lemma removeLoop_step:
  assumes "removeLoop (k # ks) d = (r, d')"
  obtains (panic) c where "informerStops d k = Some c" "c \<in> closed d"
      "r = Some PanicCloseOfClosedChannel" "d' = d"
  | (closed) c where "informerStops d k = Some c" "c \<notin> closed d"
      "removeLoop ks (deleteInformer k (d\<lparr>closed := insert c (closed d)\<rparr>)) = (r, d')"
  | (unstarted) "informerStops d k = None" "removeLoop ks (deleteInformer k d) = (r, d')"
proof (cases "informerStops d k")
  case None
  with assms have "removeLoop ks (deleteInformer k d) = (r, d')" by simp
  with None show ?thesis by (rule unstarted)
next
  case (Some c)
  show ?thesis
  proof (cases "c \<in> closed d")
    case True
    with Some assms have "r = Some PanicCloseOfClosedChannel" "d' = d"
      by (simp_all add: close_chan_def)
    with Some True show ?thesis by (rule panic)
  next
    case False
    with Some assms have "removeLoop ks (deleteInformer k (d\<lparr>closed := insert c (closed d)\<rparr>)) = (r, d')"
      by (simp add: close_chan_def)
    with Some False show ?thesis by (rule closed)
  qed
qed

lemma removeLoop_frame:
  "removeLoop ks d = (r, d') \<Longrightarrow>
   nextChan d' = nextChan d \<and> nextInformer d' = nextInformer d \<and> runs d' = runs d \<and>
   handlers d' = handlers d \<and> indexers d' = indexers d \<and> terminating d' = terminating d \<and>
   closed d \<subseteq> closed d'"
proof (induction ks arbitrary: d)
  case Nil
  then show ?case by simp
next
  case (Cons k ks)
  from Cons.prems show ?case
  proof (cases rule: removeLoop_step)
    case (panic c)
    then show ?thesis by simp
  next
    case (closed c)
    from Cons.IH [OF closed(3)] show ?thesis by auto
  next
    case unstarted
    from Cons.IH [OF unstarted(2)] show ?thesis by auto
  qed
qed

lemma removeLoop_other:
  "removeLoop ks d = (r, d') \<Longrightarrow> g \<notin> set ks \<Longrightarrow>
   informers d' g = informers d g \<and> informerStops d' g = informerStops d g \<and>
   startedInformers d' g = startedInformers d g"
proof (induction ks arbitrary: d)
  case Nil
  then show ?case by simp
next
  case (Cons k ks)
  from Cons.prems(2) have ne: "g \<noteq> k" and notin: "g \<notin> set ks" by auto
  from Cons.prems(1) show ?case
  proof (cases rule: removeLoop_step)
    case (panic c)
    then show ?thesis by simp
  next
    case (closed c)
    from Cons.IH [OF closed(3) notin] ne show ?thesis by simp
  next
    case unstarted
    from Cons.IH [OF unstarted(2) notin] ne show ?thesis by simp
  qed
qed

lemma removeLoop_closed:
  "removeLoop ks d = (r, d') \<Longrightarrow> c \<in> closed d' \<Longrightarrow>
   c \<in> closed d \<or> (\<exists>k \<in> set ks. informerStops d k = Some c)"
proof (induction ks arbitrary: d)
  case Nil
  then show ?case by simp
next
  case (Cons k ks)
  from Cons.prems(1) show ?case
  proof (cases rule: removeLoop_step)
    case (panic c')
    with Cons.prems show ?thesis by simp
  next
    case (closed c')
    from Cons.IH [OF closed(3) Cons.prems(2)] closed(1) show ?thesis
      by (auto split: if_splits)
  next
    case unstarted
    from Cons.IH [OF unstarted(2) Cons.prems(2)] show ?thesis
      by (auto split: if_splits)
  qed
qed

lemma removeLoop_removed:
  "removeLoop ks d = (None, d') \<Longrightarrow> g \<in> set ks \<Longrightarrow>
   informers d' g = None \<and> informerStops d' g = None \<and> startedInformers d' g = None \<and>
   (\<forall>c. informerStops d g = Some c \<longrightarrow> c \<in> closed d')"
proof (induction ks arbitrary: d)
  case Nil
  then show ?case by simp
next
  case (Cons k ks)
  from Cons.prems(1) show ?case
  proof (cases rule: removeLoop_step)
    case (panic c')
    then show ?thesis by simp
  next
    case (closed c')
    let ?d2 = "deleteInformer k (d\<lparr>closed := insert c' (closed d)\<rparr>)"
    show ?thesis
    proof (cases "g \<in> set ks")
      case True
      from Cons.IH [OF closed(3) True] removeLoop_frame [OF closed(3)] closed(1)
      show ?thesis by (cases "g = k") auto
    next
      case False
      with Cons.prems(2) have "g = k" by simp
      with removeLoop_other [OF closed(3) False] removeLoop_frame [OF closed(3)] closed(1)
      show ?thesis by auto
    qed
  next
    case unstarted
    show ?thesis
    proof (cases "g \<in> set ks")
      case True
      from Cons.IH [OF unstarted(2) True] unstarted(1)
      show ?thesis by (cases "g = k") auto
    next
      case False
      with Cons.prems(2) have "g = k" by simp
      with removeLoop_other [OF unstarted(2) False] unstarted(1)
      show ?thesis by auto
    qed
  qed
qed


subsection \<open>Well-formedness is kept\<close>

lemma wf_New: "wf NewDynamicDiscoverySharedInformerFactory"
  by (simp add: wf_def NewDynamicDiscoverySharedInformerFactory_def)

lemma wf_startInformer: "wf d \<Longrightarrow> wf (startInformer g i d)"
  unfolding wf_def by (auto simp: less_Suc_eq split: if_splits)

lemma wf_informerForResourceLockHeld:
  assumes "wf d" and "informerForResourceLockHeld e g d = (r, d')"
  shows "wf d'"
  using assms(2)
proof (cases rule: informerForResourceLockHeld_cases)
  case (found i)
  with assms(1) show ?thesis by simp
next
  case created
  with assms(1) show ?thesis
    unfolding wf_def by (auto simp: less_Suc_eq split: if_splits)
next
  case (refused err)
  with assms(1) show ?thesis
    unfolding wf_def by (auto simp: less_Suc_eq split: if_splits)
qed

lemma wf_addLoop: "wf d \<Longrightarrow> addLoop e ks d = (r, d') \<Longrightarrow> wf d'"
proof (induction ks arbitrary: d)
  case Nil
  then show ?case by simp
next
  case (Cons k ks)
  obtain r1 d1 where s: "informerForResourceLockHeld e k d = (r1, d1)"
    by (cases "informerForResourceLockHeld e k d")
  from wf_informerForResourceLockHeld [OF Cons.prems(1) s] have wf1: "wf d1" .
  show ?case
  proof (cases r1)
    case (Inl err)
    with Cons.prems(2) s wf1 show ?thesis by simp
  next
    case (Inr i)
    with Cons.prems(2) s have "addLoop e ks (startInformer k i d1) = (r, d')" by simp
    from Cons.IH [OF wf_startInformer [OF wf1] this] show ?thesis .
  qed
qed

lemma wf_close_delete:
  "wf d \<Longrightarrow> informerStops d k = Some c \<Longrightarrow>
   c \<notin> closed d \<and> wf (deleteInformer k (d\<lparr>closed := insert c (closed d)\<rparr>))"
  unfolding wf_def by (auto split: if_splits)

lemma wf_delete: "wf d \<Longrightarrow> wf (deleteInformer k d)"
  unfolding wf_def by (auto split: if_splits)

lemma wf_removeLoop: "wf d \<Longrightarrow> \<exists>d'. removeLoop ks d = (None, d') \<and> wf d'"
proof (induction ks arbitrary: d)
  case Nil
  then show ?case by simp
next
  case (Cons k ks)
  show ?case
  proof (cases "informerStops d k")
    case None
    from Cons.IH [OF wf_delete [OF Cons.prems, of k]] None show ?thesis by simp
  next
    case (Some c)
    from wf_close_delete [OF Cons.prems Some]
    have opn: "c \<notin> closed d" and wf2: "wf (deleteInformer k (d\<lparr>closed := insert c (closed d)\<rparr>))"
      by simp_all
    from Cons.IH [OF wf2] Some opn show ?thesis by (simp add: close_chan_def)
  qed
qed

subsection \<open>The calculation\<close>

lemma keys_of_filter:
  "keys_of S ks \<Longrightarrow> distinct (filter P ks) \<and> set (filter P ks) = {k \<in> S. P k}"
  by (auto simp: keys_of_def)

lemma calculate_sets:
  assumes "keys_of latest rl" "keys_of (dom (informers d)) ri"
  shows "set (fst (calculateInformersLockHeld rl ri latest d)) = latest - dom (informers d)"
    and "set (snd (calculateInformersLockHeld rl ri latest d)) =
           dom (informers d) - {crdGVR, apibindingsGVR} - latest"
    and "distinct (fst (calculateInformersLockHeld rl ri latest d))"
    and "distinct (snd (calculateInformersLockHeld rl ri latest d))"
  using assms by (auto simp: calculateInformersLockHeld_def keys_of_def)

lemma calculate_empty_iff:
  assumes "keys_of latest rl" "keys_of (dom (informers d)) ri"
  shows "(calculateInformersLockHeld rl ri latest d = ([], [])) =
         (latest \<subseteq> dom (informers d) \<and> dom (informers d) - {crdGVR, apibindingsGVR} \<subseteq> latest)"
proof -
  have "(calculateInformersLockHeld rl ri latest d = ([], [])) =
        (set (fst (calculateInformersLockHeld rl ri latest d)) = {} \<and>
         set (snd (calculateInformersLockHeld rl ri latest d)) = {})"
    by (cases "calculateInformersLockHeld rl ri latest d") simp
  also have "\<dots> = (latest \<subseteq> dom (informers d) \<and> dom (informers d) - {crdGVR, apibindingsGVR} \<subseteq> latest)"
    unfolding calculate_sets [OF assms] by auto
  finally show ?thesis .
qed

lemma reconcileLockHeld_noop:
  "calculateInformersLockHeld rl ri latest d = ([], []) \<Longrightarrow>
   reconcileLockHeld e rl ri latest d = (None, d)"
  by (simp add: reconcileLockHeld_def)

lemma reconcile_eq_LockHeld:
  assumes "ranges_ok rs latest d"
  shows "reconcile e rs latest d = reconcileLockHeld e (rangeLatest2 rs) (rangeInformers2 rs) latest d"
proof (cases "calculateInformersLockHeld (rangeLatest1 rs) (rangeInformers1 rs) latest d = ([], [])")
  case True
  from assms have k1: "keys_of latest (rangeLatest1 rs)" "keys_of (dom (informers d)) (rangeInformers1 rs)"
    and k2: "keys_of latest (rangeLatest2 rs)" "keys_of (dom (informers d)) (rangeInformers2 rs)"
    by (simp_all add: ranges_ok_def)
  from True have "calculateInformersLockHeld (rangeLatest2 rs) (rangeInformers2 rs) latest d = ([], [])"
    unfolding calculate_empty_iff [OF k1] calculate_empty_iff [OF k2] .
  from reconcileLockHeld_noop [OF this, of e] True show ?thesis by (simp add: reconcile_def)
next
  case False
  then show ?thesis
    by (cases "calculateInformersLockHeld (rangeLatest1 rs) (rangeInformers1 rs) latest d")
       (auto simp: reconcile_def)
qed

lemma reconcileLockHeld_loops:
  assumes "reconcileLockHeld e rl ri latest d = (r, d')"
    and "calculateInformersLockHeld rl ri latest d \<noteq> ([], [])"
  obtains (refused) err where
      "addLoop e (fst (calculateInformersLockHeld rl ri latest d)) d = (Some err, d')" "r = Some err"
  | (added) d1 where
      "addLoop e (fst (calculateInformersLockHeld rl ri latest d)) d = (None, d1)"
      "removeLoop (snd (calculateInformersLockHeld rl ri latest d)) d1 = (r, d')"
proof -
  obtain toAdd toRemove where c: "calculateInformersLockHeld rl ri latest d = (toAdd, toRemove)"
    by (cases "calculateInformersLockHeld rl ri latest d")
  obtain r1 d1 where a: "addLoop e toAdd d = (r1, d1)" by (cases "addLoop e toAdd d")
  show ?thesis
  proof (cases r1)
    case None
    with assms c a have "removeLoop toRemove d1 = (r, d')"
      by (auto simp: reconcileLockHeld_def)
    with a None c show ?thesis using added by simp
  next
    case (Some err)
    with assms c a have "r = Some err" "d' = d1"
      by (auto simp: reconcileLockHeld_def)
    with a Some c show ?thesis using refused by simp
  qed
qed

lemma reconcileLockHeld_dom:
  assumes k: "keys_of latest rl" "keys_of (dom (informers d)) ri"
    and run: "reconcileLockHeld e rl ri latest d = (None, d')"
  shows "dom (informers d') = latest \<union> (dom (informers d) \<inter> {crdGVR, apibindingsGVR})"
proof (cases "calculateInformersLockHeld rl ri latest d = ([], [])")
  case True
  from reconcileLockHeld_noop [OF True, of e] run have "d' = d" by simp
  with True [unfolded calculate_empty_iff [OF k]] show ?thesis by auto
next
  case False
  let ?toAdd = "fst (calculateInformersLockHeld rl ri latest d)"
  let ?toRemove = "snd (calculateInformersLockHeld rl ri latest d)"
  from run False show ?thesis
  proof (cases rule: reconcileLockHeld_loops)
    case (refused err)
    then show ?thesis by simp
  next
    case (added d1)
    have d1: "dom (informers d1) = dom (informers d) \<union> latest"
    proof (intro set_eqI iffI)
      fix g assume g: "g \<in> dom (informers d1)"
      show "g \<in> dom (informers d) \<union> latest"
      proof (cases "g \<in> set ?toAdd")
        case True
        then show ?thesis unfolding calculate_sets [OF k] by simp
      next
        case False
        from addLoop_other [OF added(1) False] g show ?thesis by auto
      qed
    next
      fix g assume g: "g \<in> dom (informers d) \<union> latest"
      show "g \<in> dom (informers d1)"
      proof (cases "g \<in> dom (informers d)")
        case True
        then obtain i where "informers d g = Some i" by auto
        from addLoop_keeps [OF added(1) this] show ?thesis by auto
      next
        case False
        with g have "g \<in> set ?toAdd" unfolding calculate_sets [OF k] by simp
        from addLoop_added [OF added(1) calculate_sets(3) [OF k] this] show ?thesis by auto
      qed
    qed
    have d': "dom (informers d') = dom (informers d1) - set ?toRemove"
    proof (intro set_eqI iffI)
      fix g assume g: "g \<in> dom (informers d')"
      have "g \<notin> set ?toRemove"
      proof
        assume "g \<in> set ?toRemove"
        from removeLoop_removed [OF added(2) this] g show False by auto
      qed
      with removeLoop_other [OF added(2) this] g show "g \<in> dom (informers d1) - set ?toRemove"
        by auto
    next
      fix g assume g: "g \<in> dom (informers d1) - set ?toRemove"
      then have "g \<notin> set ?toRemove" by simp
      from removeLoop_other [OF added(2) this] g show "g \<in> dom (informers d')" by auto
    qed
    show ?thesis unfolding d' d1 calculate_sets [OF k] by auto
  qed
qed


lemma wf_reconcileLockHeld:
  assumes "wf d" and "reconcileLockHeld e rl ri latest d = (r, d')"
  shows "wf d'"
proof (cases "calculateInformersLockHeld rl ri latest d = ([], [])")
  case True
  from reconcileLockHeld_noop [OF True, of e] assms show ?thesis by simp
next
  case False
  from assms(2) False show ?thesis
  proof (cases rule: reconcileLockHeld_loops)
    case (refused err)
    from wf_addLoop [OF assms(1) refused(1)] show ?thesis .
  next
    case (added d1)
    from wf_addLoop [OF assms(1) added(1)] have "wf d1" .
    from wf_removeLoop [OF this, of "snd (calculateInformersLockHeld rl ri latest d)"] added(2)
    show ?thesis by auto
  qed
qed

lemma wf_reconcile:
  assumes "wf d" and "reconcile e rs latest d = (r, d')"
  shows "wf d'"
proof (cases "calculateInformersLockHeld (rangeLatest1 rs) (rangeInformers1 rs) latest d = ([], [])")
  case True
  with assms show ?thesis by (simp add: reconcile_def)
next
  case False
  with assms(2) have "reconcileLockHeld e (rangeLatest2 rs) (rangeInformers2 rs) latest d = (r, d')"
    by (cases "calculateInformersLockHeld (rangeLatest1 rs) (rangeInformers1 rs) latest d")
       (auto simp: reconcile_def)
  from wf_reconcileLockHeld [OF assms(1) this] show ?thesis .
qed

text \<open>
  So every operation keeps a well-formed factory well-formed, and every factory reached
  from the constructor is well-formed.
\<close>

lemma wf_AddEventHandler: "wf d \<Longrightarrow> wf (AddEventHandler h d)"
  by (simp add: wf_def AddEventHandler_def Let_def)

lemma wf_AddIndexers: "wf d \<Longrightarrow> wf (snd (AddIndexers idx d))"
  by (cases "addIndexersLoop idx (indexers_map d)") (simp add: wf_def AddIndexers_def)

lemma wf_InformerForResource: "wf d \<Longrightarrow> wf (snd (InformerForResource e gvr d))"
proof (cases "informers d gvr")
  case None
  assume "wf d"
  from wf_informerForResourceLockHeld [OF this, of e gvr] None show ?thesis
    by (cases "informerForResourceLockHeld e gvr d") (simp add: InformerForResource_def)
next
  case (Some i)
  assume "wf d"
  with Some show ?thesis by (simp add: InformerForResource_def)
qed

lemma wf_Start: "wf d \<Longrightarrow> wf (Start rng d)"
  unfolding Start_def
proof (induction rng arbitrary: d)
  case Nil
  then show ?case by simp
next
  case (Cons p rng)
  obtain g i where p: "p = (g, i)" by (cases p)
  from Cons.prems have "wf (startInformer g i d)" by (rule wf_startInformer)
  with Cons show ?case by (simp add: p)
qed

lemma wf_discoverTypes: "wf d \<Longrightarrow> wf (snd (discoverTypes e rs d))"
proof (cases "discover e")
  case (Inl err)
  assume "wf d"
  with Inl show ?thesis by (simp add: discoverTypes_def)
next
  case (Inr latest)
  assume "wf d"
  from wf_reconcile [OF this, of e rs latest] Inr show ?thesis
    by (cases "reconcile e rs latest d") (simp add: discoverTypes_def)
qed

lemma reconcileLockHeld_keeps_unlisted:
  assumes "reconcileLockHeld e rl ri latest d = (r, d')"
    and "g \<notin> set (fst (calculateInformersLockHeld rl ri latest d))"
    and "g \<notin> set (snd (calculateInformersLockHeld rl ri latest d))"
  shows "informers d' g = informers d g \<and> informerStops d' g = informerStops d g \<and>
         startedInformers d' g = startedInformers d g"
proof (cases "calculateInformersLockHeld rl ri latest d = ([], [])")
  case True
  from reconcileLockHeld_noop [OF True, of e] assms(1) show ?thesis by simp
next
  case False
  from assms(1) False show ?thesis
  proof (cases rule: reconcileLockHeld_loops)
    case (refused err)
    from addLoop_other [OF refused(1) assms(2)] show ?thesis .
  next
    case (added d1)
    from addLoop_other [OF added(1) assms(2)] removeLoop_other [OF added(2) assms(3)]
    show ?thesis by simp
  qed
qed

lemma reconcile_keeps_pinned:
  assumes "p = crdGVR \<or> p = apibindingsGVR" and "informers d p = Some i"
  shows "informers (snd (reconcile e rs latest d)) p = Some i \<and>
         informerStops (snd (reconcile e rs latest d)) p = informerStops d p \<and>
         startedInformers (snd (reconcile e rs latest d)) p = startedInformers d p"
proof (cases "calculateInformersLockHeld (rangeLatest1 rs) (rangeInformers1 rs) latest d = ([], [])")
  case True
  with assms show ?thesis by (simp add: reconcile_def)
next
  case False
  let ?rl = "rangeLatest2 rs" and ?ri = "rangeInformers2 rs"
  from False have eq: "reconcile e rs latest d = reconcileLockHeld e ?rl ?ri latest d"
    by (cases "calculateInformersLockHeld (rangeLatest1 rs) (rangeInformers1 rs) latest d")
       (auto simp: reconcile_def)
  have 1: "p \<notin> set (fst (calculateInformersLockHeld ?rl ?ri latest d))"
    using assms(2) by (simp add: calculateInformersLockHeld_def)
  have 2: "p \<notin> set (snd (calculateInformersLockHeld ?rl ?ri latest d))"
    using assms(1) by (auto simp: calculateInformersLockHeld_def)
  obtain r d' where run: "reconcileLockHeld e ?rl ?ri latest d = (r, d')"
    by (cases "reconcileLockHeld e ?rl ?ri latest d")
  from reconcileLockHeld_keeps_unlisted [OF run 1 2] assms(2) show ?thesis
    by (simp add: eq run)
qed

text \<open>
  C4. The two pinned keys are never in the computed \<open>toRemove\<close>, whatever the discovered
  set. A pinned key that has an informer keeps it over a reconciliation pass and over a
  whole \<open>discoverTypes\<close>, with the same started flag and the same stop channel; on a
  well-formed factory that stop channel is not closed by the pass.
\<close>

theorem pinned_never_removed:
  "crdGVR \<notin> set (snd (calculateInformersLockHeld rl ri latest d))
   \<and> apibindingsGVR \<notin> set (snd (calculateInformersLockHeld rl ri latest d))
   \<and> (\<forall>p i. (p = crdGVR \<or> p = apibindingsGVR) \<and> informers d p = Some i \<longrightarrow>
         informers (snd (reconcile e rs latest d)) p = Some i
       \<and> informerStops (snd (reconcile e rs latest d)) p = informerStops d p
       \<and> startedInformers (snd (reconcile e rs latest d)) p = startedInformers d p
       \<and> informers (snd (discoverTypes e rs d)) p = Some i
       \<and> informerStops (snd (discoverTypes e rs d)) p = informerStops d p
       \<and> startedInformers (snd (discoverTypes e rs d)) p = startedInformers d p
       \<and> (wf d \<longrightarrow> (\<forall>c. informerStops d p = Some c \<longrightarrow>
             c \<notin> closed (snd (reconcile e rs latest d)) \<and> c \<notin> closed (snd (discoverTypes e rs d)))))"
proof (intro conjI allI impI)
  show "crdGVR \<notin> set (snd (calculateInformersLockHeld rl ri latest d))"
    by (simp add: calculateInformersLockHeld_def)
  show "apibindingsGVR \<notin> set (snd (calculateInformersLockHeld rl ri latest d))"
    by (simp add: calculateInformersLockHeld_def)
next
  fix p i assume a: "(p = crdGVR \<or> p = apibindingsGVR) \<and> informers d p = Some i"
  then have pin: "p = crdGVR \<or> p = apibindingsGVR" and i: "informers d p = Some i" by simp_all
  note keep = reconcile_keeps_pinned [OF pin i, of e rs]
  have dt: "discoverTypes e rs d = (case discover e of Inl err \<Rightarrow> (Some err, d)
      | Inr l \<Rightarrow> reconcile e rs l d)" by (simp add: discoverTypes_def)
  show "informers (snd (reconcile e rs latest d)) p = Some i" using keep [of latest] by simp
  show "informerStops (snd (reconcile e rs latest d)) p = informerStops d p" using keep [of latest] by simp
  show "startedInformers (snd (reconcile e rs latest d)) p = startedInformers d p"
    using keep [of latest] by simp
  show "informers (snd (discoverTypes e rs d)) p = Some i"
    using keep i by (cases "discover e") (simp_all add: dt)
  show "informerStops (snd (discoverTypes e rs d)) p = informerStops d p"
    using keep by (cases "discover e") (simp_all add: dt)
  show "startedInformers (snd (discoverTypes e rs d)) p = startedInformers d p"
    using keep by (cases "discover e") (simp_all add: dt)
  fix c assume wf: "wf d" and c: "informerStops d p = Some c"
  have closed_ok: "c \<notin> closed (snd (reconcile e rs l d))" for l
  proof -
    have "wf (snd (reconcile e rs l d))"
      using wf_reconcile [OF wf, of e rs l] by (cases "reconcile e rs l d") simp
    moreover have "informerStops (snd (reconcile e rs l d)) p = Some c"
      using keep [of l] c by simp
    ultimately show ?thesis unfolding wf_def by blast
  qed
  from wf c have c0: "c \<notin> closed d" unfolding wf_def by blast
  show "c \<notin> closed (snd (reconcile e rs latest d))" by (rule closed_ok)
  show "c \<notin> closed (snd (discoverTypes e rs d))"
    using closed_ok c0 by (cases "discover e") (simp_all add: dt)
qed


lemmas run_defs =
  reconcile_def reconcileLockHeld_def calculateInformersLockHeld_def
  informerForResourceLockHeld_def InformerForResource_def startInformer_def deleteInformer_def
  close_chan_def AddIndexers_def indexers_map_def Let_def
  NewDynamicDiscoverySharedInformerFactory_def
  crdGVR_def apibindingsGVR_def WithResource_def
  apiextensionsv1_SchemeGroupVersion_def apisv1alpha1_SchemeGroupVersion_def

lemma ex_pinned_eq:
  "ex_pinned = \<lparr> indexers = None, handlers = [],
       informers = [crdGVR \<mapsto> Informer 0 crdGVR, ex_a \<mapsto> Informer 1 ex_a],
       startedInformers = [crdGVR \<mapsto> True, ex_a \<mapsto> True],
       informerStops = [crdGVR \<mapsto> 0, ex_a \<mapsto> 1], terminating = False,
       nextInformer = 2, nextChan = 2, closed = {},
       runs = [(Informer 0 crdGVR, 0), (Informer 1 ex_a, 1)] \<rparr>"
  by (simp add: ex_pinned_def run_defs ex_env_def ex_a_def)

theorem pinned_never_removed_witness:
  "informers ex_pinned crdGVR = Some (Informer 0 crdGVR) \<and> wf ex_pinned
   \<and> informerStops ex_pinned crdGVR = Some 0
   \<and> snd (calculateInformersLockHeld [] [crdGVR, ex_a] {} ex_pinned) = [ex_a]
   \<and> informers (snd (reconcile ex_env ex_ranges_none {} ex_pinned)) ex_a = None
   \<and> informers (snd (reconcile ex_env ex_ranges_none {} ex_pinned)) crdGVR = Some (Informer 0 crdGVR)
   \<and> informerStops (snd (reconcile ex_env ex_ranges_none {} ex_pinned)) crdGVR = Some 0
   \<and> 0 \<notin> closed (snd (reconcile ex_env ex_ranges_none {} ex_pinned))"
proof -
  have ne: "ex_a \<noteq> crdGVR" "ex_a \<noteq> apibindingsGVR"
    by (simp_all add: ex_a_def crdGVR_def apibindingsGVR_def WithResource_def)
  have i: "informers ex_pinned crdGVR = Some (Informer 0 crdGVR)"
    using ne by (simp add: ex_pinned_eq)
  have c: "informerStops ex_pinned crdGVR = Some 0"
    using ne by (simp add: ex_pinned_eq)
  have w: "wf ex_pinned"
    unfolding ex_pinned_def
    by (rule wf_reconcile [OF wf_New]) (rule prod.collapse [symmetric])
  have t: "snd (calculateInformersLockHeld [] [crdGVR, ex_a] {} ex_pinned) = [ex_a]"
    using ne by (simp add: calculateInformersLockHeld_def ex_pinned_eq)
  have a: "informers (snd (reconcile ex_env ex_ranges_none {} ex_pinned)) ex_a = None"
    using ne by (simp add: ex_pinned_eq ex_ranges_none_def reconcile_def reconcileLockHeld_def
        calculateInformersLockHeld_def close_chan_def deleteInformer_def)
  have prem: "(crdGVR = crdGVR \<or> crdGVR = apibindingsGVR) \<and>
              informers ex_pinned crdGVR = Some (Informer 0 crdGVR)"
    using i by simp
  note kept = pinned_never_removed [of "[]" "[crdGVR, ex_a]" "{}" ex_pinned ex_env ex_ranges_none,
      THEN conjunct2, THEN conjunct2, THEN spec, THEN spec, THEN mp, OF prem]
  from kept w c
  have "informers (snd (reconcile ex_env ex_ranges_none {} ex_pinned)) crdGVR = Some (Informer 0 crdGVR)
   \<and> informerStops (snd (reconcile ex_env ex_ranges_none {} ex_pinned)) crdGVR = Some 0
   \<and> 0 \<notin> closed (snd (reconcile ex_env ex_ranges_none {} ex_pinned))"
    by simp
  with i c w t a show ?thesis by simp
qed

subsection \<open>Idempotence\<close>

lemma reconcile_dom:
  assumes "ranges_ok rs latest d" and "reconcile e rs latest d = (None, d')"
  shows "dom (informers d') = latest \<union> (dom (informers d) \<inter> {crdGVR, apibindingsGVR})"
proof -
  from assms(1) have k: "keys_of latest (rangeLatest2 rs)" "keys_of (dom (informers d)) (rangeInformers2 rs)"
    by (simp_all add: ranges_ok_def)
  from assms(2) have "reconcileLockHeld e (rangeLatest2 rs) (rangeInformers2 rs) latest d = (None, d')"
    by (simp add: reconcile_eq_LockHeld [OF assms(1)])
  from reconcileLockHeld_dom [OF k this] show ?thesis .
qed

text \<open>
  C5, as amended. When a reconciliation against a discovered set returns nil, the next
  one against the same set, whatever its \<open>range\<close> orders, computes empty \<open>toAdd\<close> and
  \<open>toRemove\<close> under both locks, returns nil, and leaves the factory exactly as it was.
\<close>

theorem reconcile_twice_noop:
  assumes "ranges_ok rs latest d" and "reconcile e rs latest d = (None, d1)"
    and "ranges_ok rs' latest d1"
  shows "calculateInformersLockHeld (rangeLatest1 rs') (rangeInformers1 rs') latest d1 = ([], [])
     \<and> calculateInformersLockHeld (rangeLatest2 rs') (rangeInformers2 rs') latest d1 = ([], [])
     \<and> reconcile e rs' latest d1 = (None, d1)"
proof -
  from assms(3) have k1: "keys_of latest (rangeLatest1 rs')" "keys_of (dom (informers d1)) (rangeInformers1 rs')"
    and k2: "keys_of latest (rangeLatest2 rs')" "keys_of (dom (informers d1)) (rangeInformers2 rs')"
    by (simp_all add: ranges_ok_def)
  have dom: "dom (informers d1) = latest \<union> (dom (informers d) \<inter> {crdGVR, apibindingsGVR})"
    by (rule reconcile_dom [OF assms(1,2)])
  have c1: "calculateInformersLockHeld (rangeLatest1 rs') (rangeInformers1 rs') latest d1 = ([], [])"
    unfolding calculate_empty_iff [OF k1] dom by auto
  have c2: "calculateInformersLockHeld (rangeLatest2 rs') (rangeInformers2 rs') latest d1 = ([], [])"
    unfolding calculate_empty_iff [OF k2] dom by auto
  from c1 have "reconcile e rs' latest d1 = (None, d1)" by (simp add: reconcile_def)
  with c1 c2 show ?thesis by simp
qed

lemma ex_ne:
  "ex_a \<noteq> ex_b" "ex_b \<noteq> ex_a" "ex_a \<noteq> ex_c" "ex_c \<noteq> ex_a" "ex_b \<noteq> ex_c" "ex_c \<noteq> ex_b"
  "ex_a \<noteq> crdGVR" "ex_a \<noteq> apibindingsGVR" "ex_b \<noteq> crdGVR" "ex_b \<noteq> apibindingsGVR"
  "ex_c \<noteq> crdGVR" "ex_c \<noteq> apibindingsGVR"
  "crdGVR \<noteq> ex_a" "apibindingsGVR \<noteq> ex_a" "crdGVR \<noteq> ex_b" "apibindingsGVR \<noteq> ex_b"
  "crdGVR \<noteq> ex_c" "apibindingsGVR \<noteq> ex_c"
  by (simp_all add: ex_a_def ex_b_def ex_c_def crdGVR_def apibindingsGVR_def WithResource_def)

lemma ex_ab_eq:
  "reconcile ex_env ex_ranges {ex_a, ex_b} NewDynamicDiscoverySharedInformerFactory =
   (None, \<lparr> indexers = None, handlers = [],
       informers = [ex_b \<mapsto> Informer 0 ex_b, ex_a \<mapsto> Informer 1 ex_a],
       startedInformers = [ex_b \<mapsto> True, ex_a \<mapsto> True],
       informerStops = [ex_b \<mapsto> 0, ex_a \<mapsto> 1], terminating = False,
       nextInformer = 2, nextChan = 2, closed = {},
       runs = [(Informer 0 ex_b, 0), (Informer 1 ex_a, 1)] \<rparr>)"
  using ex_ne by (simp add: run_defs ex_ranges_def ex_env_def)

theorem reconcile_twice_noop_witness:
  "ranges_ok ex_ranges {ex_a, ex_b} (NewDynamicDiscoverySharedInformerFactory :: (nat, nat) factory)
   \<and> reconcile ex_env ex_ranges {ex_a, ex_b} NewDynamicDiscoverySharedInformerFactory = (None, ex_ab)
   \<and> ranges_ok ex_ranges_again {ex_a, ex_b} ex_ab
   \<and> informers ex_ab ex_a = Some (Informer 1 ex_a)
   \<and> calculateInformersLockHeld [ex_b, ex_a] [ex_a, ex_b] {ex_a, ex_b} ex_ab = ([], [])
   \<and> reconcile ex_env ex_ranges_again {ex_a, ex_b} ex_ab = (None, ex_ab)"
proof -
  have h1: "ranges_ok ex_ranges {ex_a, ex_b} (NewDynamicDiscoverySharedInformerFactory :: (nat, nat) factory)"
    using ex_ne by (auto simp: ranges_ok_def keys_of_def ex_ranges_def NewDynamicDiscoverySharedInformerFactory_def)
  have h2: "reconcile ex_env ex_ranges {ex_a, ex_b} NewDynamicDiscoverySharedInformerFactory = (None, ex_ab)"
    by (simp add: ex_ab_def ex_ab_eq)
  have inf: "informers ex_ab = [ex_b \<mapsto> Informer 0 ex_b, ex_a \<mapsto> Informer 1 ex_a]"
    by (simp add: ex_ab_def ex_ab_eq)
  have h3: "ranges_ok ex_ranges_again {ex_a, ex_b} ex_ab"
    using ex_ne by (auto simp: ranges_ok_def keys_of_def ex_ranges_again_def inf)
  from reconcile_twice_noop [OF h1 h2 h3] h1 h2 h3 inf ex_ne
  show ?thesis by (simp add: ex_ranges_again_def)
qed

text \<open>
  The claim as stated fails when the first reconciliation does not succeed: with an
  indexer named \<open>namespace\<close> registered, no informer can be created, the first pass
  returns the error, and the second pass computes a \<open>toAdd\<close> that is not empty.
\<close>

theorem reconcile_twice_after_error_counterexample:
  "ranges_ok ex_ranges {ex_a, ex_b} ex_conflict
   \<and> fst (reconcile ex_env ex_ranges {ex_a, ex_b} ex_conflict) = Some (Error ''indexer conflict'')
   \<and> ranges_ok ex_ranges {ex_a, ex_b} (snd (reconcile ex_env ex_ranges {ex_a, ex_b} ex_conflict))
   \<and> fst (calculateInformersLockHeld [ex_a, ex_b] [] {ex_a, ex_b}
           (snd (reconcile ex_env ex_ranges {ex_a, ex_b} ex_conflict))) = [ex_a, ex_b]"
proof -
  have r: "reconcile ex_env ex_ranges {ex_a, ex_b} ex_conflict =
     (Some (Error ''indexer conflict''), ex_conflict\<lparr>nextInformer := 1\<rparr>)"
    using ex_ne by (simp add: ex_conflict_def run_defs ex_ranges_def ex_env_def)
  have i: "informers ex_conflict = Map.empty"
    by (simp add: ex_conflict_def run_defs)
  have h: "ranges_ok ex_ranges {ex_a, ex_b} ex_conflict"
    using ex_ne by (auto simp: ranges_ok_def keys_of_def ex_ranges_def i)
  have h': "ranges_ok ex_ranges {ex_a, ex_b} (ex_conflict\<lparr>nextInformer := 1\<rparr>)"
    using h by (simp add: ranges_ok_def)
  show ?thesis using h h' by (simp add: r calculateInformersLockHeld_def i)
qed

subsection \<open>A watch that fails to initialise\<close>








section \<open>One informer per key\<close>

lemma wf_step: "wf d \<Longrightarrow> wf (step e a d)"
proof (cases a)
  case (ActInformerForResource g)
  assume "wf d"
  from wf_informerForResourceLockHeld [OF this, of e g] ActInformerForResource
  show ?thesis by (cases "informerForResourceLockHeld e g d") simp
next
  case (ActReconcile rl ri latest)
  assume "wf d"
  from wf_reconcileLockHeld [OF this, of e rl ri latest] ActReconcile
  show ?thesis by (cases "reconcileLockHeld e rl ri latest d") simp
qed

lemma wf_run: "wf d \<Longrightarrow> wf (run e acts d)"
  by (induction acts arbitrary: d) (simp_all add: wf_step)

lemma informerForResourceLockHeld_stored:
  "informerForResourceLockHeld e g d = (Inr i, d') \<Longrightarrow> informers d' g = Some i"
  by (erule informerForResourceLockHeld_cases) simp_all

text \<open>
  C9. The informers are held in a map, so a key has at most one. Asked for a key that
  has an informer, \<open>informerForResourceLockHeld\<close> and \<open>InformerForResource\<close> return that
  informer and leave the factory as it is: none is created, none is stored. This also
  holds when the first look-up missed and other goroutines, in any sequence of
  \<open>InformerForResource\<close> calls and reconciliation passes, created the informer before
  the write lock was taken. An informer returned is the one stored under the key; and
  on a well-formed factory no informer is ever stored under two keys.
\<close>

theorem InformerForResource_returns_existing:
  "(\<forall>i. informers d gvr = Some i \<longrightarrow>
        informerForResourceLockHeld e gvr d = (Inr i, d)
      \<and> InformerForResource e gvr d = (Inr i, d)
      \<and> InformerForResource_between e others gvr d = (Inr i, d))
   \<and> (\<forall>i. informers d gvr = None \<and> informers (run e others d) gvr = Some i \<longrightarrow>
        InformerForResource_between e others gvr d = (Inr i, run e others d))
   \<and> InformerForResource_between e [] gvr d = InformerForResource e gvr d
   \<and> (\<forall>i d'. InformerForResource_between e others gvr d = (Inr i, d') \<longrightarrow> informers d' gvr = Some i)
   \<and> (wf d \<longrightarrow> wf (snd (InformerForResource_between e others gvr d))
        \<and> (\<forall>g g' i. informers (snd (InformerForResource_between e others gvr d)) g = Some i \<and>
                     informers (snd (InformerForResource_between e others gvr d)) g' = Some i \<longrightarrow> g = g'))"
proof (intro conjI allI impI)
  fix i assume "informers d gvr = Some i"
  then show "informerForResourceLockHeld e gvr d = (Inr i, d)"
    and "InformerForResource e gvr d = (Inr i, d)"
    and "InformerForResource_between e others gvr d = (Inr i, d)"
    by (simp_all add: informerForResourceLockHeld_found InformerForResource_def
        InformerForResource_between_def)
next
  fix i assume "informers d gvr = None \<and> informers (run e others d) gvr = Some i"
  then show "InformerForResource_between e others gvr d = (Inr i, run e others d)"
    by (simp add: InformerForResource_between_def informerForResourceLockHeld_found)
next
  show "InformerForResource_between e [] gvr d = InformerForResource e gvr d"
    by (simp add: InformerForResource_between_def InformerForResource_def split: option.splits)
next
  fix i d' assume r: "InformerForResource_between e others gvr d = (Inr i, d')"
  show "informers d' gvr = Some i"
  proof (cases "informers d gvr")
    case None
    with r have "informerForResourceLockHeld e gvr (run e others d) = (Inr i, d')"
      by (simp add: InformerForResource_between_def)
    then show ?thesis by (rule informerForResourceLockHeld_stored)
  next
    case (Some j)
    with r show ?thesis by (simp add: InformerForResource_between_def)
  qed
next
  assume wf: "wf d"
  show w: "wf (snd (InformerForResource_between e others gvr d))"
  proof (cases "informers d gvr")
    case None
    from wf_informerForResourceLockHeld [OF wf_run [OF wf, of e others], of e gvr] None
    show ?thesis
      by (cases "informerForResourceLockHeld e gvr (run e others d)")
         (simp add: InformerForResource_between_def)
  next
    case (Some j)
    with wf show ?thesis by (simp add: InformerForResource_between_def)
  qed
  fix g g' i
  assume "informers (snd (InformerForResource_between e others gvr d)) g = Some i \<and>
          informers (snd (InformerForResource_between e others gvr d)) g' = Some i"
  with w show "g = g'" unfolding wf_def by metis
qed

theorem InformerForResource_returns_existing_witness:
  "informers (NewDynamicDiscoverySharedInformerFactory :: (nat, nat) factory) ex_a = None
   \<and> informers (run ex_env [ActInformerForResource ex_b, ActInformerForResource ex_a]
        (NewDynamicDiscoverySharedInformerFactory :: (nat, nat) factory)) ex_a = Some (Informer 1 ex_a)
   \<and> wf (NewDynamicDiscoverySharedInformerFactory :: (nat, nat) factory)
   \<and> InformerForResource_between ex_env [ActInformerForResource ex_b, ActInformerForResource ex_a] ex_a
        (NewDynamicDiscoverySharedInformerFactory :: (nat, nat) factory)
      = (Inr (Informer 1 ex_a),
         run ex_env [ActInformerForResource ex_b, ActInformerForResource ex_a]
           NewDynamicDiscoverySharedInformerFactory)
   \<and> nextInformer (snd (InformerForResource_between ex_env
        [ActInformerForResource ex_b, ActInformerForResource ex_a] ex_a
        (NewDynamicDiscoverySharedInformerFactory :: (nat, nat) factory))) = 2
   \<and> wf (snd (InformerForResource_between ex_env
        [ActInformerForResource ex_b, ActInformerForResource ex_a] ex_a
        (NewDynamicDiscoverySharedInformerFactory :: (nat, nat) factory)))"
proof -
  let ?d = "NewDynamicDiscoverySharedInformerFactory :: (nat, nat) factory"
  let ?others = "[ActInformerForResource ex_b, ActInformerForResource ex_a]"
  have h1: "informers ?d ex_a = None" by (simp add: NewDynamicDiscoverySharedInformerFactory_def)
  have runs: "run ex_env ?others ?d = ?d\<lparr>nextInformer := 2,
      informers := [ex_b \<mapsto> Informer 0 ex_b, ex_a \<mapsto> Informer 1 ex_a]\<rparr>"
    using ex_ne by (simp add: run_defs ex_env_def)
  have h2: "informers (run ex_env ?others ?d) ex_a = Some (Informer 1 ex_a)"
    unfolding runs by simp
  have prem: "informers ?d ex_a = None \<and> informers (run ex_env ?others ?d) ex_a = Some (Informer 1 ex_a)"
    using h1 h2 by simp
  note inst = InformerForResource_returns_existing [of ?d ex_a ex_env ?others]
  from inst [THEN conjunct2, THEN conjunct1, THEN spec, THEN mp, OF prem]
  have r: "InformerForResource_between ex_env ?others ex_a ?d = (Inr (Informer 1 ex_a), run ex_env ?others ?d)" .
  from inst [THEN conjunct2, THEN conjunct2, THEN conjunct2, THEN conjunct2, THEN mp, OF wf_New, THEN conjunct1]
  have w: "wf (snd (InformerForResource_between ex_env ?others ex_a ?d))" .
  have n: "nextInformer (snd (InformerForResource_between ex_env ?others ex_a ?d)) = 2"
    unfolding r runs by simp
  from h1 h2 wf_New r w n show ?thesis by (simp only: simp_thms)
qed

section \<open>Convergence\<close>

lemma singleton_list: "distinct xs \<Longrightarrow> set xs = {x} \<Longrightarrow> xs = [x]"
proof (cases xs)
  case Nil
  assume "set xs = {x}" with Nil show ?thesis by simp
next
  case (Cons y ys)
  assume d: "distinct xs" and s: "set xs = {x}"
  from s Cons have y: "y = x" by auto
  from d Cons y have "x \<notin> set ys" by simp
  moreover from s Cons have "set ys \<subseteq> {x}" by auto
  ultimately have "ys = []" by (cases ys) auto
  with Cons y show ?thesis by simp
qed

lemma reconcile_new_key:
  assumes ok: "ranges_ok rs latest d" and run: "reconcile e rs latest d = (None, d')"
    and g: "g \<in> latest" and absent: "informers d g = None"
  shows "\<exists>i c. informers d' g = Some i \<and> nextInformer d \<le> inf_id i \<and> inf_id i < nextInformer d' \<and>
           informerStops d' g = Some c \<and> startedInformers d' g = Some True"
proof -
  let ?rl = "rangeLatest2 rs" and ?ri = "rangeInformers2 rs"
  let ?toAdd = "fst (calculateInformersLockHeld ?rl ?ri latest d)"
  let ?toRemove = "snd (calculateInformersLockHeld ?rl ?ri latest d)"
  from ok have k: "keys_of latest ?rl" "keys_of (dom (informers d)) ?ri"
    by (simp_all add: ranges_ok_def)
  from run have lh: "reconcileLockHeld e ?rl ?ri latest d = (None, d')"
    by (simp add: reconcile_eq_LockHeld [OF ok])
  from g absent have gin: "g \<in> set ?toAdd" unfolding calculate_sets(1) [OF k] by auto
  from g have gout: "g \<notin> set ?toRemove" unfolding calculate_sets(2) [OF k] by auto
  from gin have ne: "calculateInformersLockHeld ?rl ?ri latest d \<noteq> ([], [])" by auto
  from lh ne show ?thesis
  proof (cases rule: reconcileLockHeld_loops)
    case (refused err)
    then show ?thesis by simp
  next
    case (added d1)
    from addLoop_added [OF added(1) calculate_sets(3) [OF k] gin] absent
    obtain i c where "informers d1 g = Some i" "nextInformer d \<le> inf_id i" "inf_id i < nextInformer d1"
      "informerStops d1 g = Some c" "startedInformers d1 g = Some True" by auto
    with removeLoop_other [OF added(2) gout] removeLoop_frame [OF added(2)]
    have "informers d' g = Some i \<and> nextInformer d \<le> inf_id i \<and> inf_id i < nextInformer d' \<and>
           informerStops d' g = Some c \<and> startedInformers d' g = Some True" by simp
    then show ?thesis by (intro exI)
  qed
qed

text \<open>
  C6, as amended. Take a well-formed factory, three different keys \<open>A\<close>, \<open>B\<close>, \<open>C\<close> that
  are not pinned, and two passes that both return nil: the first against \<open>{A, B}\<close>, the
  second against \<open>{B, C}\<close>. After the second pass the keys of the informer map are \<open>B\<close>,
  \<open>C\<close> and the pinned keys the factory held at the start. The entry of \<open>A\<close> is gone from
  the three maps and its stop channel, if it had one, is closed. \<open>C\<close> had no informer
  after the first pass; the second pass created one, started it once, on a new channel
  that is open, and started nothing else. \<open>B\<close> has the informer, the started flag and
  the stop channel it had after the first pass, and that channel is open. When \<open>A\<close>
  (or \<open>B\<close>) had no informer at the start, the first pass created and started it, so the
  channel of \<open>A\<close> was open after the first pass and is closed after the second. From a
  factory without informers the keys at the end are exactly \<open>B\<close> and \<open>C\<close>.
\<close>

theorem reconcile_converges:
  assumes wf0: "wf d0"
    and ne: "A \<noteq> B" "B \<noteq> C" "A \<noteq> C"
    and np: "A \<notin> {crdGVR, apibindingsGVR}" "B \<notin> {crdGVR, apibindingsGVR}" "C \<notin> {crdGVR, apibindingsGVR}"
    and ok1: "ranges_ok rs1 {A, B} d0" and r1: "reconcile e rs1 {A, B} d0 = (None, d1)"
    and ok2: "ranges_ok rs2 {B, C} d1" and r2: "reconcile e rs2 {B, C} d1 = (None, d2)"
  shows "dom (informers d2) = {B, C} \<union> (dom (informers d0) \<inter> {crdGVR, apibindingsGVR})
     \<and> (dom (informers d0) = {} \<longrightarrow> dom (informers d2) = {B, C})
     \<and> informers d2 A = None \<and> informerStops d2 A = None \<and> startedInformers d2 A = None
     \<and> (\<forall>c. informerStops d1 A = Some c \<longrightarrow> c \<in> closed d2)
     \<and> (informers d0 A = None \<longrightarrow> (\<exists>c. informerStops d1 A = Some c \<and> c \<notin> closed d1 \<and> c \<in> closed d2))
     \<and> informers d1 C = None
     \<and> informers d2 C = Some (Informer (nextInformer d1) C)
     \<and> informerStops d2 C = Some (nextChan d1) \<and> nextChan d1 \<notin> closed d2
     \<and> startedInformers d2 C = Some True
     \<and> runs d2 = runs d1 @ [(Informer (nextInformer d1) C, nextChan d1)]
     \<and> informers d1 B \<noteq> None
     \<and> informers d2 B = informers d1 B \<and> informerStops d2 B = informerStops d1 B
     \<and> startedInformers d2 B = startedInformers d1 B
     \<and> (\<forall>c. informerStops d1 B = Some c \<longrightarrow> c \<notin> closed d2)
     \<and> (informers d0 B = None \<longrightarrow>
          (\<exists>i c. informers d2 B = Some i \<and> nextInformer d0 \<le> inf_id i \<and> inf_id i < nextInformer d1 \<and>
                 informerStops d2 B = Some c \<and> c \<notin> closed d2 \<and> startedInformers d2 B = Some True))"
proof -
  let ?pinned = "{crdGVR, apibindingsGVR}"
  let ?iC = "Informer (nextInformer d1) C"
  let ?rl = "rangeLatest2 rs2" and ?ri = "rangeInformers2 rs2"
  have dom1: "dom (informers d1) = {A, B} \<union> (dom (informers d0) \<inter> ?pinned)"
    by (rule reconcile_dom [OF ok1 r1])
  have wf1: "wf d1" by (rule wf_reconcile [OF wf0 r1])
  have dom2: "dom (informers d2) = {B, C} \<union> (dom (informers d1) \<inter> ?pinned)"
    by (rule reconcile_dom [OF ok2 r2])
  have domres: "dom (informers d2) = {B, C} \<union> (dom (informers d0) \<inter> ?pinned)"
    unfolding dom2 dom1 using np by auto
  have C1: "informers d1 C = None"
  proof -
    have "C \<notin> dom (informers d1)" unfolding dom1 using ne np by auto
    then show ?thesis by auto
  qed
  have B1: "informers d1 B \<noteq> None"
  proof -
    have "B \<in> dom (informers d1)" unfolding dom1 by simp
    then show ?thesis by auto
  qed
  from ok2 have k: "keys_of {B, C} ?rl" "keys_of (dom (informers d1)) ?ri"
    by (simp_all add: ranges_ok_def)
  have "set (fst (calculateInformersLockHeld ?rl ?ri {B, C} d1)) = {C}"
    unfolding calculate_sets(1) [OF k] dom1 using ne np by auto
  from singleton_list [OF calculate_sets(3) [OF k] this]
  have toAdd: "fst (calculateInformersLockHeld ?rl ?ri {B, C} d1) = [C]" .
  have "set (snd (calculateInformersLockHeld ?rl ?ri {B, C} d1)) = {A}"
    unfolding calculate_sets(2) [OF k] dom1 using ne np by auto
  from singleton_list [OF calculate_sets(4) [OF k] this]
  have toRemove: "snd (calculateInformersLockHeld ?rl ?ri {B, C} d1) = [A]" .
  from toAdd have nonempty: "calculateInformersLockHeld ?rl ?ri {B, C} d1 \<noteq> ([], [])" by auto
  from r2 have lh: "reconcileLockHeld e ?rl ?ri {B, C} d1 = (None, d2)"
    by (simp add: reconcile_eq_LockHeld [OF ok2])
  from lh nonempty obtain dA where add: "addLoop e [C] d1 = (None, dA)"
    and rem: "removeLoop [A] dA = (None, d2)"
    by (cases rule: reconcileLockHeld_loops) (simp_all add: toAdd toRemove)
  obtain r' dd where s: "informerForResourceLockHeld e C d1 = (r', dd)"
    by (cases "informerForResourceLockHeld e C d1")
  from s have dA: "dA = startInformer C ?iC
      (d1\<lparr>nextInformer := Suc (nextInformer d1), informers := (informers d1)(C \<mapsto> ?iC)\<rparr>)"
  proof (cases rule: informerForResourceLockHeld_cases)
    case (found i)
    with C1 show ?thesis by simp
  next
    case created
    with add s show ?thesis by simp
  next
    case (refused err)
    with add s show ?thesis by simp
  qed
  have stopA: "informerStops dA A = informerStops d1 A" using ne by (simp add: dA)
  have closedA: "closed dA = closed d1" by (simp add: dA)
  have d2: "d2 = deleteInformer A (dA\<lparr>closed := closed d1 \<union> {c. informerStops d1 A = Some c}\<rparr>)"
    using rem
  proof (cases rule: removeLoop_step)
    case (panic c)
    then show ?thesis by simp
  next
    case (closed c)
    from closed(1) stopA have "{c'. informerStops d1 A = Some c'} = {c}" by auto
    with closed(3) closedA show ?thesis by simp
  next
    case unstarted
    from unstarted(1) stopA have none: "{c'. informerStops d1 A = Some c'} = {}" by auto
    have upd: "dA\<lparr>closed := closed d1\<rparr> = dA" unfolding closedA [symmetric] by simp
    from unstarted(2) show ?thesis by (simp add: none upd)
  qed
  have cl2: "closed d2 = closed d1 \<union> {c. informerStops d1 A = Some c}" by (simp add: d2)
  have fresh: "nextChan d1 \<notin> closed d2"
    unfolding cl2 using wf1 unfolding wf_def by fastforce
  have Bopen: "\<forall>c. informerStops d1 B = Some c \<longrightarrow> c \<notin> closed d2"
    unfolding cl2 using wf1 ne(1) unfolding wf_def by fastforce
  have A2: "informers d2 A = None \<and> informerStops d2 A = None \<and> startedInformers d2 A = None"
    by (simp add: d2)
  have Aclosed: "\<forall>c. informerStops d1 A = Some c \<longrightarrow> c \<in> closed d2" by (simp add: cl2)
  have Cnew: "informers d2 C = Some ?iC \<and> informerStops d2 C = Some (nextChan d1) \<and>
              startedInformers d2 C = Some True"
    using ne by (simp add: d2 dA)
  have runs2: "runs d2 = runs d1 @ [(?iC, nextChan d1)]" by (simp add: d2 dA)
  have Bsame: "informers d2 B = informers d1 B \<and> informerStops d2 B = informerStops d1 B \<and>
               startedInformers d2 B = startedInformers d1 B"
    using ne by (simp add: d2 dA)
  have Anew: "informers d0 A = None \<longrightarrow> (\<exists>c. informerStops d1 A = Some c \<and> c \<notin> closed d1 \<and> c \<in> closed d2)"
  proof
    assume "informers d0 A = None"
    from reconcile_new_key [OF ok1 r1 _ this] obtain c where c: "informerStops d1 A = Some c" by auto
    with wf1 have "c \<notin> closed d1" unfolding wf_def by fast
    with c Aclosed show "\<exists>c. informerStops d1 A = Some c \<and> c \<notin> closed d1 \<and> c \<in> closed d2" by auto
  qed
  have Bnew: "informers d0 B = None \<longrightarrow>
          (\<exists>i c. informers d2 B = Some i \<and> nextInformer d0 \<le> inf_id i \<and> inf_id i < nextInformer d1 \<and>
                 informerStops d2 B = Some c \<and> c \<notin> closed d2 \<and> startedInformers d2 B = Some True)"
  proof
    assume "informers d0 B = None"
    from reconcile_new_key [OF ok1 r1 _ this] obtain i c where
      "informers d1 B = Some i" "nextInformer d0 \<le> inf_id i" "inf_id i < nextInformer d1"
      "informerStops d1 B = Some c" "startedInformers d1 B = Some True" by auto
    with Bsame Bopen
    have "informers d2 B = Some i \<and> nextInformer d0 \<le> inf_id i \<and> inf_id i < nextInformer d1 \<and>
                 informerStops d2 B = Some c \<and> c \<notin> closed d2 \<and> startedInformers d2 B = Some True"
      by simp
    then show "\<exists>i c. informers d2 B = Some i \<and> nextInformer d0 \<le> inf_id i \<and> inf_id i < nextInformer d1 \<and>
                 informerStops d2 B = Some c \<and> c \<notin> closed d2 \<and> startedInformers d2 B = Some True"
      by (intro exI)
  qed
  have empty: "dom (informers d0) = {} \<longrightarrow> dom (informers d2) = {B, C}"
    unfolding domres by simp
  from domres empty A2 Aclosed Anew C1 Cnew fresh runs2 B1 Bsame Bopen Bnew
  show ?thesis by (simp only: simp_thms)
qed

lemma ex_ab_fields:
  "informers ex_ab = [ex_b \<mapsto> Informer 0 ex_b, ex_a \<mapsto> Informer 1 ex_a]"
  "informerStops ex_ab = [ex_b \<mapsto> 0, ex_a \<mapsto> 1]"
  "startedInformers ex_ab = [ex_b \<mapsto> True, ex_a \<mapsto> True]"
  "nextInformer ex_ab = 2" "nextChan ex_ab = 2" "closed ex_ab = {}"
  "runs ex_ab = [(Informer 0 ex_b, 0), (Informer 1 ex_a, 1)]"
  "indexers ex_ab = None"
  by (simp_all add: ex_ab_def ex_ab_eq)

lemma ex_bc_run: "reconcile ex_env ex_ranges_bc {ex_b, ex_c} ex_ab = (None, ex_bc)"
proof -
  have "fst (reconcile ex_env ex_ranges_bc {ex_b, ex_c} ex_ab) = None"
    using ex_ne
    by (simp add: ex_ranges_bc_def reconcile_def reconcileLockHeld_def calculateInformersLockHeld_def
        ex_ab_fields informerForResourceLockHeld_def Let_def ex_env_def close_chan_def)
  then show ?thesis unfolding ex_bc_def by (simp add: prod_eq_iff)
qed

theorem reconcile_converges_witness:
  "wf (NewDynamicDiscoverySharedInformerFactory :: (nat, nat) factory)
   \<and> ex_a \<noteq> ex_b \<and> ex_b \<noteq> ex_c \<and> ex_a \<noteq> ex_c
   \<and> ex_a \<notin> {crdGVR, apibindingsGVR} \<and> ex_b \<notin> {crdGVR, apibindingsGVR} \<and> ex_c \<notin> {crdGVR, apibindingsGVR}
   \<and> ranges_ok ex_ranges {ex_a, ex_b} (NewDynamicDiscoverySharedInformerFactory :: (nat, nat) factory)
   \<and> reconcile ex_env ex_ranges {ex_a, ex_b} NewDynamicDiscoverySharedInformerFactory = (None, ex_ab)
   \<and> ranges_ok ex_ranges_bc {ex_b, ex_c} ex_ab
   \<and> reconcile ex_env ex_ranges_bc {ex_b, ex_c} ex_ab = (None, ex_bc)
   \<and> dom (informers ex_bc) = {ex_b, ex_c}
   \<and> informers ex_bc ex_a = None \<and> informerStops ex_ab ex_a = Some 1 \<and> 1 \<in> closed ex_bc
   \<and> informers ex_bc ex_c = Some (Informer 2 ex_c) \<and> informerStops ex_bc ex_c = Some 2
   \<and> 2 \<notin> closed ex_bc
   \<and> runs ex_bc = runs ex_ab @ [(Informer 2 ex_c, 2)]
   \<and> informers ex_bc ex_b = Some (Informer 0 ex_b) \<and> informerStops ex_bc ex_b = Some 0
   \<and> 0 \<notin> closed ex_bc"
proof -
  have np: "ex_a \<notin> {crdGVR, apibindingsGVR}" "ex_b \<notin> {crdGVR, apibindingsGVR}"
    "ex_c \<notin> {crdGVR, apibindingsGVR}" using ex_ne by simp_all
  have ok1: "ranges_ok ex_ranges {ex_a, ex_b} (NewDynamicDiscoverySharedInformerFactory :: (nat, nat) factory)"
    using ex_ne by (auto simp: ranges_ok_def keys_of_def ex_ranges_def NewDynamicDiscoverySharedInformerFactory_def)
  have r1: "reconcile ex_env ex_ranges {ex_a, ex_b} NewDynamicDiscoverySharedInformerFactory = (None, ex_ab)"
    by (simp add: ex_ab_def ex_ab_eq)
  have ok2: "ranges_ok ex_ranges_bc {ex_b, ex_c} ex_ab"
    using ex_ne by (auto simp: ranges_ok_def keys_of_def ex_ranges_bc_def ex_ab_fields)
  have d0: "dom (informers (NewDynamicDiscoverySharedInformerFactory :: (nat, nat) factory)) = {}"
    by (simp add: NewDynamicDiscoverySharedInformerFactory_def)
  have b: "informers ex_ab ex_b = Some (Informer 0 ex_b)" "informerStops ex_ab ex_b = Some 0"
    "informerStops ex_ab ex_a = Some 1"
    using ex_ne by (simp_all add: ex_ab_fields)
  from reconcile_converges [OF wf_New ex_ne(1) ex_ne(5) ex_ne(3) np ok1 r1 ok2 ex_bc_run]
  have "dom (informers ex_bc) = {ex_b, ex_c}
   \<and> informers ex_bc ex_a = None \<and> 1 \<in> closed ex_bc
   \<and> informers ex_bc ex_c = Some (Informer 2 ex_c) \<and> informerStops ex_bc ex_c = Some 2
   \<and> 2 \<notin> closed ex_bc
   \<and> runs ex_bc = runs ex_ab @ [(Informer 2 ex_c, 2)]
   \<and> informers ex_bc ex_b = Some (Informer 0 ex_b) \<and> informerStops ex_bc ex_b = Some 0
   \<and> 0 \<notin> closed ex_bc"
    by (simp add: d0 b ex_ab_fields(4,5))
  with wf_New ex_ne(1) ex_ne(5) ex_ne(3) np ok1 r1 ok2 ex_bc_run b(3)
  show ?thesis by (simp only: simp_thms)
qed

text \<open>
  The claim as stated fails on a factory that holds an informer for a pinned key: after
  the two passes the pinned key is still in the map, next to \<open>b\<close> and \<open>c\<close>.
\<close>

lemma ex_crd0_eq:
  "ex_crd0 = \<lparr> indexers = None, handlers = [],
       informers = [crdGVR \<mapsto> Informer 0 crdGVR],
       startedInformers = Map.empty, informerStops = Map.empty, terminating = False,
       nextInformer = 1, nextChan = 0, closed = {}, runs = [] \<rparr>"
  by (simp add: ex_crd0_def run_defs ex_env_def)

lemma ex_crd1_eq:
  "reconcile ex_env ex_ranges_crd1 {ex_a, ex_b} ex_crd0 =
   (None, \<lparr> indexers = None, handlers = [],
       informers = [crdGVR \<mapsto> Informer 0 crdGVR, ex_a \<mapsto> Informer 1 ex_a, ex_b \<mapsto> Informer 2 ex_b],
       startedInformers = [ex_a \<mapsto> True, ex_b \<mapsto> True],
       informerStops = [ex_a \<mapsto> 0, ex_b \<mapsto> 1], terminating = False,
       nextInformer = 3, nextChan = 2, closed = {},
       runs = [(Informer 1 ex_a, 0), (Informer 2 ex_b, 1)] \<rparr>)"
  using ex_ne
  by (simp add: ex_crd0_eq ex_ranges_crd1_def reconcile_def reconcileLockHeld_def
      calculateInformersLockHeld_def informerForResourceLockHeld_def startInformer_def Let_def ex_env_def
      numeral_2_eq_2 numeral_3_eq_3)

theorem pinned_key_stays_counterexample:
  "wf ex_crd0
   \<and> ranges_ok ex_ranges_crd1 {ex_a, ex_b} ex_crd0
   \<and> reconcile ex_env ex_ranges_crd1 {ex_a, ex_b} ex_crd0 = (None, ex_crd1)
   \<and> ranges_ok ex_ranges_crd2 {ex_b, ex_c} ex_crd1
   \<and> reconcile ex_env ex_ranges_crd2 {ex_b, ex_c} ex_crd1 = (None, ex_crd2)
   \<and> informers ex_crd2 crdGVR = Some (Informer 0 crdGVR)
   \<and> crdGVR \<notin> {ex_b, ex_c}"
proof -
  have w: "wf ex_crd0" by (simp add: ex_crd0_eq wf_def)
  have ok1: "ranges_ok ex_ranges_crd1 {ex_a, ex_b} ex_crd0"
    using ex_ne by (auto simp: ranges_ok_def keys_of_def ex_ranges_crd1_def ex_crd0_eq)
  have r1: "reconcile ex_env ex_ranges_crd1 {ex_a, ex_b} ex_crd0 = (None, ex_crd1)"
    by (simp add: ex_crd1_def ex_crd1_eq)
  have f1: "informers ex_crd1 = [crdGVR \<mapsto> Informer 0 crdGVR, ex_a \<mapsto> Informer 1 ex_a, ex_b \<mapsto> Informer 2 ex_b]"
    "informerStops ex_crd1 = [ex_a \<mapsto> 0, ex_b \<mapsto> 1]" "closed ex_crd1 = {}" "indexers ex_crd1 = None"
    by (simp_all add: ex_crd1_def ex_crd1_eq)
  have ok2: "ranges_ok ex_ranges_crd2 {ex_b, ex_c} ex_crd1"
    using ex_ne by (auto simp: ranges_ok_def keys_of_def ex_ranges_crd2_def f1)
  have "fst (reconcile ex_env ex_ranges_crd2 {ex_b, ex_c} ex_crd1) = None"
    using ex_ne
    by (simp add: ex_ranges_crd2_def reconcile_def reconcileLockHeld_def calculateInformersLockHeld_def
        f1 informerForResourceLockHeld_def Let_def ex_env_def close_chan_def)
  then have r2: "reconcile ex_env ex_ranges_crd2 {ex_b, ex_c} ex_crd1 = (None, ex_crd2)"
    unfolding ex_crd2_def by (simp add: prod_eq_iff)
  have i: "informers ex_crd2 crdGVR = Some (Informer 0 crdGVR)"
    unfolding ex_crd2_def using ex_ne
    by (simp add: ex_ranges_crd2_def reconcile_def reconcileLockHeld_def calculateInformersLockHeld_def
        f1 informerForResourceLockHeld_def Let_def ex_env_def close_chan_def)
  from w ok1 r1 ok2 r2 i ex_ne show ?thesis by simp
qed

section \<open>Shutdown\<close>

text \<open>
  No operation writes the field \<open>terminating\<close>: it is false in the factory the constructor
  returns and keeps its value over every method, over every write-locked section and over
  the teardown.
\<close>

lemma terminating_New: "\<not> terminating NewDynamicDiscoverySharedInformerFactory"
  by (simp add: NewDynamicDiscoverySharedInformerFactory_def)

lemma terminating_informerForResourceLockHeld:
  "terminating (snd (informerForResourceLockHeld e g d)) = terminating d"
proof -
  obtain r d' where s: "informerForResourceLockHeld e g d = (r, d')"
    by (cases "informerForResourceLockHeld e g d")
  from s have "terminating d' = terminating d"
    by (cases rule: informerForResourceLockHeld_cases) simp_all
  with s show ?thesis by simp
qed

lemma terminating_startLoop: "terminating (startLoop rng d) = terminating d"
proof (induction rng arbitrary: d)
  case Nil
  show ?case by simp
next
  case (Cons p rng)
  obtain g i where p: "p = (g, i)" by (cases p)
  show ?case
  proof (cases "startedInformers d g = Some True")
    case True
    with Cons.IH [of d] show ?thesis by (simp add: p)
  next
    case False
    with Cons.IH [of "startInformer g i d"] show ?thesis by (simp add: p)
  qed
qed

lemma terminating_reconcileLockHeld:
  "terminating (snd (reconcileLockHeld e rl ri latest d)) = terminating d"
proof (cases "calculateInformersLockHeld rl ri latest d = ([], [])")
  case True
  from reconcileLockHeld_noop [OF True, of e] show ?thesis by simp
next
  case False
  obtain r d' where run: "reconcileLockHeld e rl ri latest d = (r, d')"
    by (cases "reconcileLockHeld e rl ri latest d")
  from run False have "terminating d' = terminating d"
  proof (cases rule: reconcileLockHeld_loops)
    case (refused err)
    from addLoop_frame [OF refused(1)] show ?thesis by simp
  next
    case (added d1)
    from addLoop_frame [OF added(1)] removeLoop_frame [OF added(2)] show ?thesis by simp
  qed
  with run show ?thesis by simp
qed

lemma terminating_reconcile: "terminating (snd (reconcile e rs latest d)) = terminating d"
proof (cases "calculateInformersLockHeld (rangeLatest1 rs) (rangeInformers1 rs) latest d = ([], [])")
  case True
  then have "reconcile e rs latest d = (None, d)" by (simp add: reconcile_def)
  then show ?thesis by simp
next
  case False
  then have "reconcile e rs latest d =
      reconcileLockHeld e (rangeLatest2 rs) (rangeInformers2 rs) latest d"
    by (cases "calculateInformersLockHeld (rangeLatest1 rs) (rangeInformers1 rs) latest d")
       (auto simp: reconcile_def)
  then show ?thesis by (simp only: terminating_reconcileLockHeld)
qed

lemma terminating_teardownLoop: "terminating (snd (teardownLoop rng d)) = terminating d"
proof (induction rng arbitrary: d)
  case Nil
  then show ?case by simp
next
  case (Cons p rng)
  obtain g c where p: "p = (g, c)" by (cases p)
  show ?case
  proof (cases "c \<in> closed d")
    case True
    then show ?thesis by (simp add: p close_chan_def)
  next
    case False
    with Cons.IH [of "d\<lparr>closed := insert c (closed d)\<rparr>"] show ?thesis
      by (simp add: p close_chan_def)
  qed
qed

lemma terminating_never_set:
  "terminating (AddEventHandler h d) = terminating d"
  "terminating (snd (AddIndexers idx d)) = terminating d"
  "terminating (snd (InformerForResource e g d)) = terminating d"
  "terminating (Start rng d) = terminating d"
  "terminating (snd (discoverTypes e rs d)) = terminating d"
  "terminating (step e a d) = terminating d"
  "terminating (snd (StartPolling_teardown stops d)) = terminating d"
proof -
  show "terminating (AddEventHandler h d) = terminating d"
    by (simp add: AddEventHandler_def Let_def)
  show "terminating (snd (AddIndexers idx d)) = terminating d"
    by (cases "addIndexersLoop idx (indexers_map d)") (simp add: AddIndexers_def)
  show "terminating (snd (InformerForResource e g d)) = terminating d"
  proof (cases "informers d g")
    case None
    then have "InformerForResource e g d = informerForResourceLockHeld e g d"
      by (simp add: InformerForResource_def)
    then show ?thesis by (simp only: terminating_informerForResourceLockHeld)
  next
    case (Some i)
    then show ?thesis by (simp add: InformerForResource_def)
  qed
  show "terminating (Start rng d) = terminating d"
    by (simp only: Start_def terminating_startLoop)
  show "terminating (snd (discoverTypes e rs d)) = terminating d"
  proof (cases "discover e")
    case (Inl err)
    then show ?thesis by (simp add: discoverTypes_def)
  next
    case (Inr latest)
    then have "discoverTypes e rs d = reconcile e rs latest d" by (simp add: discoverTypes_def)
    then show ?thesis by (simp only: terminating_reconcile)
  qed
  show "terminating (step e a d) = terminating d"
  proof (cases a)
    case (ActInformerForResource g')
    then show ?thesis by (simp only: step.simps terminating_informerForResourceLockHeld)
  next
    case (ActReconcile rl ri latest)
    then show ?thesis by (simp only: step.simps terminating_reconcileLockHeld)
  qed
  show "terminating (snd (StartPolling_teardown stops d)) = terminating d"
    by (simp only: StartPolling_teardown_def terminating_teardownLoop)
qed

lemma ex_ab_teardown:
  "StartPolling_teardown [(ex_a, 1), (ex_b, 0)] ex_ab = (None, ex_ab\<lparr>closed := {0, 1}\<rparr>)"
  by (simp add: StartPolling_teardown_def close_chan_def ex_ab_fields)

text \<open>
  C7. The readiness half holds: see \<open>Listers_ready_iff_synced\<close>. The shutdown half does
  not: the teardown of \<open>StartPolling\<close> closes the stop channels and leaves \<open>terminating\<close>
  as it was, so \<open>Listers\<close> returns after the shutdown what it returned before. On the
  factory that runs informers for \<open>a\<close> and \<open>b\<close>, both synced, the teardown closes both
  channels, and \<open>Listers\<close> still returns the two listers.
\<close>

theorem Listers_after_teardown_not_empty:
  "terminating (snd (StartPolling_teardown stops d)) = terminating d
   \<and> Listers HasSynced rng (snd (StartPolling_teardown stops d)) = Listers HasSynced rng d
   \<and> StartPolling_teardown [(ex_a, 1), (ex_b, 0)] ex_ab = (None, ex_ab\<lparr>closed := {0, 1}\<rparr>)
   \<and> terminating (snd (StartPolling_teardown [(ex_a, 1), (ex_b, 0)] ex_ab)) = False
   \<and> fst (Listers (\<lambda>i. True) [(ex_b, Informer 0 ex_b), (ex_a, Informer 1 ex_a)]
          (snd (StartPolling_teardown [(ex_a, 1), (ex_b, 0)] ex_ab))) ex_a = Some (Lister (Informer 1 ex_a))
   \<and> fst (Listers (\<lambda>i. True) [(ex_b, Informer 0 ex_b), (ex_a, Informer 1 ex_a)]
          (snd (StartPolling_teardown [(ex_a, 1), (ex_b, 0)] ex_ab))) ex_b = Some (Lister (Informer 0 ex_b))"
proof -
  let ?stops = "[(ex_a, 1), (ex_b, 0)]"
  let ?rng = "[(ex_b, Informer 0 ex_b), (ex_a, Informer 1 ex_a)]"
  have t: "terminating (snd (StartPolling_teardown stops d)) = terminating d"
    by (rule terminating_never_set)
  have l: "Listers HasSynced rng (snd (StartPolling_teardown stops d)) = Listers HasSynced rng d"
    by (simp only: Listers_def t)
  have td: "StartPolling_teardown ?stops ex_ab = (None, ex_ab\<lparr>closed := {0, 1}\<rparr>)"
    by (rule ex_ab_teardown)
  have nt0: "\<not> terminating ex_ab" by (simp add: ex_ab_def ex_ab_eq)
  have nt: "terminating (snd (StartPolling_teardown ?stops ex_ab)) = False"
    using nt0 by (simp only: terminating_never_set)
  have same: "Listers (\<lambda>i. True) ?rng (snd (StartPolling_teardown ?stops ex_ab)) =
              Listers (\<lambda>i. True) ?rng ex_ab"
    by (simp only: Listers_def terminating_never_set)
  have la: "fst (Listers (\<lambda>i. True) ?rng (snd (StartPolling_teardown ?stops ex_ab))) ex_a =
            Some (Lister (Informer 1 ex_a))"
    unfolding same using nt0 ex_ne by (simp add: Listers_def)
  have lb: "fst (Listers (\<lambda>i. True) ?rng (snd (StartPolling_teardown ?stops ex_ab))) ex_b =
            Some (Lister (Informer 0 ex_b))"
    unfolding same using nt0 ex_ne by (simp add: Listers_def)
  from t l td nt la lb show ?thesis by (intro conjI)
qed

end
